theory Spec2Isabelle
  imports Complex_Main "HOL-Library.Multiset"
begin

section \<open>Numeric post-processing of the plate recognition pipeline\<close>

text \<open>
  The three plugins under \<^verbatim>\<open>src/edge/gstreamer/hailo-postprocess\<close> are embedded
  here: \<^verbatim>\<open>plate_ocr.cpp\<close>, \<^verbatim>\<open>plate_detection.cpp\<close> and \<^verbatim>\<open>plate_crop.cpp\<close>.

  Conventions of the embedding.
  \<^item> A value of the C++ type \<^verbatim>\<open>float\<close> that the sources read, store or compare is a
    real number: the inputs are finite. The arithmetic of \<^verbatim>\<open>compute_iou\<close>, whose result
    depends on the rounding, is that of IEEE 754 binary32, with the infinities and the
    value that is not a number as results. The sums of the decoder, the difference
    \<^verbatim>\<open>cx - w / 2.0f\<close> of \<^verbatim>\<open>plate_detection\<close> and the products of \<^verbatim>\<open>crop_plates\<close> are
    exact.
  \<^item> A tensor's \<^verbatim>\<open>float*\<close> buffer is a list. A read at an index outside the list is
    undefined behaviour in C++; a function that performs one has the value \<open>None\<close>.
    The sources have no error result of their own.
  \<^item> \<^verbatim>\<open>int\<close> values are integers. Buffers hold fewer than \<open>2 ^ 31\<close> elements, so an
    index whose computation would overflow lies outside the buffer anyway.
\<close>

subsection \<open>plate\_ocr.cpp: character set and validation\<close>

definition CHARSET :: string where
  "CHARSET = ''0123456789ABCDEFGHIJKLMNOPQRSTUVWXYZ''"

definition BLANK_INDEX :: int where
  "BLANK_INDEX = int (length CHARSET)"

text \<open>\<^verbatim>\<open>CHARSET.find(c) != std::string::npos\<close>\<close>

definition charset_has :: "char \<Rightarrow> bool" where
  "charset_has c = (c \<in> set CHARSET)"

text \<open>The loop \<^verbatim>\<open>for (char c : text) if (...) cleaned += c;\<close> of \<^verbatim>\<open>validate_plate_text\<close>.\<close>

fun clean_loop :: "string \<Rightarrow> string \<Rightarrow> string" where
  "clean_loop [] cleaned = cleaned"
| "clean_loop (c # rest) cleaned =
     (if charset_has c then clean_loop rest (cleaned @ [c]) else clean_loop rest cleaned)"

definition validate_plate_text :: "string \<Rightarrow> string" where
  "validate_plate_text str =
     (let cleaned = clean_loop str []
      in if length cleaned < 4 \<or> length cleaned > 8 then [] else cleaned)"

subsection \<open>plate\_ocr.cpp: the greedy CTC decoder\<close>

record OCRResult =
  ocr_text :: string
  ocr_confidence :: real
  char_confidences :: "real list"

text \<open>A read \<^verbatim>\<open>data[i]\<close> of a tensor buffer.\<close>

definition load :: "real list \<Rightarrow> int \<Rightarrow> real option" where
  "load data i = (if 0 \<le> i \<and> i < int (length data) then Some (data ! nat i) else None)"

text \<open>
  The inner loop \<^verbatim>\<open>for (int c = 1; c < num_classes; c++)\<close> of \<^verbatim>\<open>ctc_greedy_decode\<close>,
  with its two variables \<^verbatim>\<open>max_idx\<close> and \<^verbatim>\<open>max_prob\<close>.
\<close>

function argmax_loop ::
  "real list \<Rightarrow> int \<Rightarrow> int \<Rightarrow> int \<Rightarrow> int \<Rightarrow> real \<Rightarrow> (int \<times> real) option" where
  "argmax_loop output_data t num_classes c max_idx max_prob =
     (if c < num_classes then
        (case load output_data (t * num_classes + c) of
           None \<Rightarrow> None
         | Some prob \<Rightarrow>
             if prob > max_prob then argmax_loop output_data t num_classes (c + 1) c prob
             else argmax_loop output_data t num_classes (c + 1) max_idx max_prob)
      else Some (max_idx, max_prob))"
  by pat_completeness auto
termination
  by (relation "measure (\<lambda>(d, t, n, c, i, p). nat (n - c))") auto

declare argmax_loop.simps [simp del]

text \<open>
  The loop over the timesteps. Its state is \<^verbatim>\<open>prev_char\<close>, \<^verbatim>\<open>total_conf\<close>,
  \<^verbatim>\<open>char_count\<close> and the \<^verbatim>\<open>result\<close> under construction.
\<close>

function decode_loop ::
  "real list \<Rightarrow> int \<Rightarrow> int \<Rightarrow> int \<Rightarrow> int \<Rightarrow> real \<Rightarrow> int \<Rightarrow> OCRResult
     \<Rightarrow> (OCRResult \<times> real \<times> int) option" where
  "decode_loop output_data timesteps num_classes t prev_char total_conf char_count result =
     (if t < timesteps then
        (case load output_data (t * num_classes) of
           None \<Rightarrow> None
         | Some p0 \<Rightarrow>
             (case argmax_loop output_data t num_classes 1 0 p0 of
                None \<Rightarrow> None
              | Some (max_idx, max_prob) \<Rightarrow>
                  if max_idx \<noteq> BLANK_INDEX \<and> max_idx \<noteq> prev_char
                     \<and> max_idx < int (length CHARSET)
                  then decode_loop output_data timesteps num_classes (t + 1) max_idx
                         (total_conf + max_prob) (char_count + 1)
                         (result\<lparr>ocr_text := ocr_text result @ [CHARSET ! nat max_idx],
                                 char_confidences := char_confidences result @ [max_prob]\<rparr>)
                  else decode_loop output_data timesteps num_classes (t + 1) max_idx
                         total_conf char_count result))
      else Some (result, total_conf, char_count))"
  by pat_completeness auto
termination
  by (relation "measure (\<lambda>(d, n, k, t, p, s, c, r). nat (n - t))") auto

declare decode_loop.simps [simp del]

text \<open>
  \<^verbatim>\<open>result.confidence\<close> is not initialised before the loop and is assigned after it;
  the model starts it at 0.
\<close>

definition ctc_greedy_decode :: "real list \<Rightarrow> int \<Rightarrow> int \<Rightarrow> OCRResult option" where
  "ctc_greedy_decode output_data timesteps num_classes =
     (case decode_loop output_data timesteps num_classes 0 BLANK_INDEX 0 0
             \<lparr>ocr_text = [], ocr_confidence = 0, char_confidences = []\<rparr> of
        None \<Rightarrow> None
      | Some (result, total_conf, char_count) \<Rightarrow>
          Some (result\<lparr>ocr_confidence :=
                   (if char_count > 0 then total_conf / real_of_int char_count else 0)\<rparr>))"


subsection \<open>plate\_ocr.cpp: the filter function\<close>






subsection \<open>plate\_detection.cpp: overlap of two boxes\<close>

record Detection =
  det_x :: real
  det_y :: real
  det_width :: real
  det_height :: real
  det_confidence :: real
  det_class_id :: int

text \<open>
  The arithmetic of \<^verbatim>\<open>compute_iou\<close> is that of IEEE 754 binary32, the \<^verbatim>\<open>float\<close> of the
  platforms the plugin is built for: the result of each single operation is the exact
  result rounded to the nearest binary32 number, a tie going to the number with the even
  significand, and no two operations are fused. A binary32 number is \<open>m * 2 ^ e\<close> with
  an integer \<open>m\<close> of magnitude below \<open>2 ^ 24\<close> and \<open>- 149 \<le> e \<le> 104\<close>. A result that
  rounds to a magnitude of \<open>2 ^ 128\<close> or more is an infinity, and \<open>NaN\<close> is the result of
  \<open>0 / 0\<close>, of a difference of two infinities and of a product of 0 and an infinity.

  \<open>ulp32 x\<close> is the distance of the binary32 numbers around \<open>x\<close>: \<open>2 ^ (k - 23)\<close> when
  \<open>2 ^ k \<le> \<bar>x\<bar> < 2 ^ (k + 1)\<close>, and \<open>2 ^ - 149\<close> below \<open>2 ^ - 126\<close>. It is found by
  halving a magnitude of 2 or more, and by doubling a magnitude below 1 at most 126
  times.
\<close>

datatype float_value = Finite real | PlusInfinity | MinusInfinity | NaN

function ulp_up :: "real \<Rightarrow> real \<Rightarrow> real" where
  "ulp_up y u = (if y < 2 then u else ulp_up (y / 2) (u * 2))"
  by pat_completeness auto
termination
  by (relation "measure (\<lambda>(y, u). nat \<lceil>y\<rceil>)") (auto, linarith)

declare ulp_up.simps [simp del]

function ulp_down :: "nat \<Rightarrow> real \<Rightarrow> real \<Rightarrow> real" where
  "ulp_down n y u = (if 1 \<le> y \<or> n = 0 then u else ulp_down (n - 1) (y * 2) (u / 2))"
  by pat_completeness auto
termination
  by (relation "measure (\<lambda>(n, y, u). n)") auto

declare ulp_down.simps [simp del]

definition ulp32 :: "real \<Rightarrow> real" where
  "ulp32 x = (if 1 \<le> \<bar>x\<bar> then ulp_up \<bar>x\<bar> (1 / 2 ^ 23) else ulp_down 126 \<bar>x\<bar> (1 / 2 ^ 23))"

text \<open>The nearest integer, a tie going to the even one.\<close>

definition round_half_even :: "real \<Rightarrow> int" where
  "round_half_even r =
     (let n = \<lfloor>r\<rfloor>; d = r - of_int n
      in if d < 1 / 2 then n else if 1 / 2 < d then n + 1 else if even n then n else n + 1)"

text \<open>
  The nearest multiple of \<open>ulp32 x\<close>, and the \<^verbatim>\<open>float\<close> that an exact result \<open>x\<close> becomes.
  \<open>round32 0.45\<close> is the value of the literal \<^verbatim>\<open>0.45f\<close>.
\<close>

definition round32 :: "real \<Rightarrow> real" where
  "round32 x = of_int (round_half_even (x / ulp32 x)) * ulp32 x"

definition f32 :: "real \<Rightarrow> float_value" where
  "f32 x = (let r = round32 x
            in if 2 ^ 128 \<le> r then PlusInfinity
               else if r \<le> - (2 ^ 128) then MinusInfinity
               else Finite r)"

text \<open>
  The operations \<^verbatim>\<open>+\<close>, \<^verbatim>\<open>-\<close>, \<^verbatim>\<open>*\<close>, \<^verbatim>\<open>/\<close> and \<^verbatim>\<open><\<close> on \<^verbatim>\<open>float\<close>. The two zeros of
  binary32 are the one value \<open>Finite 0\<close>: they compare equal, and the sign of a zero
  decides a result only when a value other than zero is divided by it. The only division
  of the sources is the last line of \<^verbatim>\<open>compute_iou\<close>; its divisor is, when it is zero
  and the dividend is not, the difference of two equal numbers other than zero, which
  is the positive zero.
\<close>

definition signed_infinity :: "bool \<Rightarrow> float_value" where
  "signed_infinity negative = (if negative then MinusInfinity else PlusInfinity)"

fun is_negative :: "float_value \<Rightarrow> bool" where
  "is_negative (Finite r) = (r < 0)"
| "is_negative PlusInfinity = False"
| "is_negative MinusInfinity = True"
| "is_negative NaN = False"

fun float_add :: "float_value \<Rightarrow> float_value \<Rightarrow> float_value" where
  "float_add (Finite a) (Finite b) = f32 (a + b)"
| "float_add NaN b = NaN"
| "float_add a NaN = NaN"
| "float_add PlusInfinity MinusInfinity = NaN"
| "float_add MinusInfinity PlusInfinity = NaN"
| "float_add PlusInfinity b = PlusInfinity"
| "float_add MinusInfinity b = MinusInfinity"
| "float_add (Finite a) b = b"

fun float_sub :: "float_value \<Rightarrow> float_value \<Rightarrow> float_value" where
  "float_sub (Finite a) (Finite b) = f32 (a - b)"
| "float_sub NaN b = NaN"
| "float_sub a NaN = NaN"
| "float_sub PlusInfinity PlusInfinity = NaN"
| "float_sub MinusInfinity MinusInfinity = NaN"
| "float_sub PlusInfinity b = PlusInfinity"
| "float_sub MinusInfinity b = MinusInfinity"
| "float_sub (Finite a) PlusInfinity = MinusInfinity"
| "float_sub (Finite a) MinusInfinity = PlusInfinity"

fun float_mul :: "float_value \<Rightarrow> float_value \<Rightarrow> float_value" where
  "float_mul (Finite a) (Finite b) = f32 (a * b)"
| "float_mul NaN b = NaN"
| "float_mul a NaN = NaN"
| "float_mul (Finite a) b = (if a = 0 then NaN else signed_infinity ((a < 0) \<noteq> is_negative b))"
| "float_mul a (Finite b) = (if b = 0 then NaN else signed_infinity (is_negative a \<noteq> (b < 0)))"
| "float_mul a b = signed_infinity (is_negative a \<noteq> is_negative b)"

fun float_div :: "float_value \<Rightarrow> float_value \<Rightarrow> float_value" where
  "float_div (Finite a) (Finite b) =
     (if b \<noteq> 0 then f32 (a / b) else if a = 0 then NaN else signed_infinity (a < 0))"
| "float_div NaN b = NaN"
| "float_div a NaN = NaN"
| "float_div (Finite a) b = Finite 0"
| "float_div a (Finite b) = signed_infinity (is_negative a \<noteq> (b < 0))"
| "float_div a b = NaN"

fun float_less :: "float_value \<Rightarrow> float_value \<Rightarrow> bool" where
  "float_less (Finite a) (Finite b) = (a < b)"
| "float_less NaN b = False"
| "float_less a NaN = False"
| "float_less a MinusInfinity = False"
| "float_less PlusInfinity b = False"
| "float_less a b = True"

text \<open>
  \<^verbatim>\<open>std::max(a, b)\<close> is \<^verbatim>\<open>(a < b) ? b : a\<close> and \<^verbatim>\<open>std::min(a, b)\<close> is \<^verbatim>\<open>(b < a) ? b : a\<close>.
\<close>

definition float_max :: "float_value \<Rightarrow> float_value \<Rightarrow> float_value" where
  "float_max a b = (if float_less a b then b else a)"

definition float_min :: "float_value \<Rightarrow> float_value \<Rightarrow> float_value" where
  "float_min a b = (if float_less b a then b else a)"

text \<open>
  The comparisons \<^verbatim>\<open>v > t\<close> and \<^verbatim>\<open>v <= t\<close> with a finite \<open>t\<close>; both are false when \<open>v\<close> is
  not a number.
\<close>

fun float_gt :: "float_value \<Rightarrow> real \<Rightarrow> bool" where
  "float_gt (Finite r) t = (r > t)"
| "float_gt PlusInfinity t = True"
| "float_gt MinusInfinity t = False"
| "float_gt NaN t = False"

fun float_le :: "float_value \<Rightarrow> real \<Rightarrow> bool" where
  "float_le (Finite r) t = (r \<le> t)"
| "float_le PlusInfinity t = False"
| "float_le MinusInfinity t = True"
| "float_le NaN t = False"

definition compute_iou :: "Detection \<Rightarrow> Detection \<Rightarrow> float_value" where
  "compute_iou a b =
     (let x1 = float_max (Finite (det_x a)) (Finite (det_x b));
          y1 = float_max (Finite (det_y a)) (Finite (det_y b));
          x2 = float_min (float_add (Finite (det_x a)) (Finite (det_width a)))
                         (float_add (Finite (det_x b)) (Finite (det_width b)));
          y2 = float_min (float_add (Finite (det_y a)) (Finite (det_height a)))
                         (float_add (Finite (det_y b)) (Finite (det_height b)))
      in if float_less x2 x1 \<or> float_less y2 y1 then Finite 0
         else
           (let intersection = float_mul (float_sub x2 x1) (float_sub y2 y1);
                area_a = float_mul (Finite (det_width a)) (Finite (det_height a));
                area_b = float_mul (Finite (det_width b)) (Finite (det_height b));
                union_area = float_sub (float_add area_a area_b) intersection
            in float_div intersection union_area))"

subsection \<open>plate\_detection.cpp: suppression of duplicates\<close>

text \<open>
  \<^verbatim>\<open>apply_nms\<close> sorts with \<^verbatim>\<open>std::sort\<close> and the comparator
  \<^verbatim>\<open>a.confidence > b.confidence\<close>. The C++ standard library is not part of the sources.
  The C++ standard says of \<^verbatim>\<open>std::sort\<close> that the result is a permutation of the range in
  which no element is followed by one that the comparator puts before it; it says nothing
  of the order of elements that the comparator does not separate (that is
  \<^verbatim>\<open>std::stable_sort\<close>). The sort is a parameter \<open>srt\<close> of the model of \<^verbatim>\<open>apply_nms\<close>,
  \<open>std_sort_contract\<close> is what the standard says of it, and \<open>std_sort\<close> below is the
  \<^verbatim>\<open>std::sort\<close> of libstdc++.
\<close>

definition conf_greater :: "Detection \<Rightarrow> Detection \<Rightarrow> bool" where
  "conf_greater a b = (det_confidence a > det_confidence b)"

definition std_sort_contract :: "(Detection list \<Rightarrow> Detection list) \<Rightarrow> bool" where
  "std_sort_contract srt =
     (\<forall>xs. mset (srt xs) = mset xs \<and> sorted_wrt (\<lambda>a b. \<not> conf_greater b a) (srt xs))"

text \<open>The inner loop \<^verbatim>\<open>for (size_t j = i + 1; j < detections.size(); j++)\<close>.\<close>

function nms_inner ::
  "Detection list \<Rightarrow> real \<Rightarrow> nat \<Rightarrow> nat \<Rightarrow> bool list \<Rightarrow> bool list" where
  "nms_inner detections iou_threshold i j suppressed =
     (if j < length detections then
        (if suppressed ! j then nms_inner detections iou_threshold i (j + 1) suppressed
         else if float_gt (compute_iou (detections ! i) (detections ! j)) iou_threshold
         then nms_inner detections iou_threshold i (j + 1) (suppressed[j := True])
         else nms_inner detections iou_threshold i (j + 1) suppressed)
      else suppressed)"
  by pat_completeness auto
termination
  by (relation "measure (\<lambda>(d, t, i, j, s). length d - j)") auto

declare nms_inner.simps [simp del]

text \<open>The outer loop \<^verbatim>\<open>for (size_t i = 0; i < detections.size(); i++)\<close>.\<close>

function nms_outer ::
  "Detection list \<Rightarrow> real \<Rightarrow> nat \<Rightarrow> bool list \<Rightarrow> Detection list \<Rightarrow> Detection list" where
  "nms_outer detections iou_threshold i suppressed result =
     (if i < length detections then
        (if suppressed ! i then nms_outer detections iou_threshold (i + 1) suppressed result
         else nms_outer detections iou_threshold (i + 1)
                (nms_inner detections iou_threshold i (i + 1) suppressed)
                (result @ [detections ! i]))
      else result)"
  by pat_completeness auto
termination
  by (relation "measure (\<lambda>(d, t, i, s, r). length d - i)") auto

declare nms_outer.simps [simp del]

definition apply_nms ::
  "(Detection list \<Rightarrow> Detection list) \<Rightarrow> Detection list \<Rightarrow> real \<Rightarrow> Detection list" where
  "apply_nms srt detections iou_threshold =
     (let sorted_detections = srt detections
      in nms_outer sorted_detections iou_threshold 0
           (replicate (length sorted_detections) False) [])"

text \<open>The stable sort by descending confidence.\<close>

definition stable_sort_desc :: "Detection list \<Rightarrow> Detection list" where
  "stable_sort_desc xs = sort_key (\<lambda>d. - det_confidence d) xs"

text \<open>
  \<open>std_sort\<close> is the \<^verbatim>\<open>std::sort\<close> of libstdc++, the standard library of GCC
  (\<^verbatim>\<open>bits/stl_algo.h\<close> and \<^verbatim>\<open>bits/stl_heap.h\<close>), with the comparator of \<^verbatim>\<open>apply_nms\<close>:
  an introsort that partitions ranges of more than 16 elements around a median of three,
  falls back to a heap sort when the recursion gets deeper than \<open>2 * lg n\<close>, and finishes
  with an insertion sort. Iterators are positions in the list; a function that changes
  the range returns the changed list. \<open>lst\<close> is \<^verbatim>\<open>__last\<close> and \<open>cut_at\<close> is \<^verbatim>\<open>__cut\<close>.

  Three loops of the library have no test for the end of the range:
  \<^verbatim>\<open>while (__comp(__first, __pivot))\<close> and \<^verbatim>\<open>while (__comp(__pivot, __last))\<close> in
  \<^verbatim>\<open>__unguarded_partition\<close>, and \<^verbatim>\<open>while (__comp(__val, __next))\<close> in
  \<^verbatim>\<open>__unguarded_linear_insert\<close>. They are stopped by an element of the range: the
  median that \<^verbatim>\<open>__move_median_to_first\<close> has put at the pivot position, and the largest
  element, which the partitions leave among the first 16. Here these loops also stop at
  the end of the list, where the library would read outside the vector.

  \<^verbatim>\<open>std::iter_swap(a, b)\<close>.
\<close>

definition iter_swap :: "Detection list \<Rightarrow> nat \<Rightarrow> nat \<Rightarrow> Detection list" where
  "iter_swap xs i j = xs[i := xs ! j, j := xs ! i]"

text \<open>\<^verbatim>\<open>std::__lg(n)\<close>, the position of the highest bit of \<open>n\<close>.\<close>

function lg :: "nat \<Rightarrow> nat" where
  "lg n = (if n < 2 then 0 else 1 + lg (n div 2))"
  by pat_completeness auto
termination
  by (relation "measure (\<lambda>n. n)") auto

declare lg.simps [simp del]

text \<open>
  \<^verbatim>\<open>std::__push_heap(first, holeIndex, topIndex, value, comp)\<close>: the parents of the hole
  that the comparator puts before the value move down, and the value fills the hole.
\<close>

function push_heap :: "Detection list \<Rightarrow> nat \<Rightarrow> nat \<Rightarrow> nat \<Rightarrow> Detection \<Rightarrow> Detection list" where
  "push_heap xs first holeIndex topIndex val =
     (let parent = (holeIndex - 1) div 2
      in if topIndex < holeIndex \<and> conf_greater (xs ! (first + parent)) val
         then push_heap (xs[first + holeIndex := xs ! (first + parent)]) first parent topIndex val
         else xs[first + holeIndex := val])"
  by pat_completeness auto
termination
  by (relation "measure (\<lambda>(xs, first, holeIndex, topIndex, val). holeIndex)") auto

declare push_heap.simps [simp del]

text \<open>
  \<^verbatim>\<open>std::__adjust_heap(first, holeIndex, len, value, comp)\<close>. Its loop
  \<^verbatim>\<open>while (secondChild < (len - 1) / 2)\<close> moves the hole down to the child that the
  comparator does not put before the other; when \<open>len\<close> is even, the last parent has one
  child only, which moves up too; \<^verbatim>\<open>__push_heap\<close> then places the value.
\<close>

function adjust_heap_loop ::
  "Detection list \<Rightarrow> nat \<Rightarrow> nat \<Rightarrow> nat \<Rightarrow> nat \<Rightarrow> Detection list \<times> nat \<times> nat" where
  "adjust_heap_loop xs first holeIndex secondChild len =
     (if secondChild < (len - 1) div 2 then
        (let right = 2 * (secondChild + 1);
             child = (if conf_greater (xs ! (first + right)) (xs ! (first + (right - 1)))
                      then right - 1 else right)
         in adjust_heap_loop (xs[first + holeIndex := xs ! (first + child)]) first child child len)
      else (xs, holeIndex, secondChild))"
  by pat_completeness auto
termination
  by (relation "measure (\<lambda>(xs, first, holeIndex, secondChild, len). len - secondChild)") auto

declare adjust_heap_loop.simps [simp del]

definition adjust_heap :: "Detection list \<Rightarrow> nat \<Rightarrow> nat \<Rightarrow> nat \<Rightarrow> Detection \<Rightarrow> Detection list" where
  "adjust_heap xs first holeIndex len val =
     (case adjust_heap_loop xs first holeIndex holeIndex len of
        (ys, hole, secondChild) \<Rightarrow>
          if even len \<and> 2 \<le> len \<and> secondChild = (len - 2) div 2
          then let left = 2 * (secondChild + 1) - 1
               in push_heap (ys[first + hole := ys ! (first + left)]) first left holeIndex val
          else push_heap ys first hole holeIndex val)"

text \<open>
  \<^verbatim>\<open>std::__make_heap(first, last, comp)\<close> with its loop over the parents, from
  \<open>(len - 2) / 2\<close> down to 0.
\<close>

function make_heap_loop :: "Detection list \<Rightarrow> nat \<Rightarrow> nat \<Rightarrow> nat \<Rightarrow> Detection list" where
  "make_heap_loop xs first len parent =
     (let ys = adjust_heap xs first parent len (xs ! (first + parent))
      in if parent = 0 then ys else make_heap_loop ys first len (parent - 1))"
  by pat_completeness auto
termination
  by (relation "measure (\<lambda>(xs, first, len, parent). parent)") auto

declare make_heap_loop.simps [simp del]

definition make_heap :: "Detection list \<Rightarrow> nat \<Rightarrow> nat \<Rightarrow> Detection list" where
  "make_heap xs first lst =
     (if lst - first < 2 then xs
      else make_heap_loop xs first (lst - first) ((lst - first - 2) div 2))"

text \<open>
  \<^verbatim>\<open>std::__pop_heap(first, last, result, comp)\<close>, \<^verbatim>\<open>std::__sort_heap(first, last, comp)\<close>,
  \<^verbatim>\<open>std::__heap_select(first, middle, last, comp)\<close> with its loop, and
  \<^verbatim>\<open>std::__partial_sort(first, middle, last, comp)\<close>.
\<close>

definition pop_heap :: "Detection list \<Rightarrow> nat \<Rightarrow> nat \<Rightarrow> nat \<Rightarrow> Detection list" where
  "pop_heap xs first lst result =
     adjust_heap (xs[result := xs ! first]) first 0 (lst - first) (xs ! result)"

function sort_heap :: "Detection list \<Rightarrow> nat \<Rightarrow> nat \<Rightarrow> Detection list" where
  "sort_heap xs first lst =
     (if 1 < lst - first then sort_heap (pop_heap xs first (lst - 1) (lst - 1)) first (lst - 1)
      else xs)"
  by pat_completeness auto
termination
  by (relation "measure (\<lambda>(xs, first, lst). lst - first)") auto

declare sort_heap.simps [simp del]

function heap_select_loop :: "Detection list \<Rightarrow> nat \<Rightarrow> nat \<Rightarrow> nat \<Rightarrow> nat \<Rightarrow> Detection list" where
  "heap_select_loop xs first middle lst i =
     (if i < lst then
        heap_select_loop
          (if conf_greater (xs ! i) (xs ! first) then pop_heap xs first middle i else xs)
          first middle lst (i + 1)
      else xs)"
  by pat_completeness auto
termination
  by (relation "measure (\<lambda>(xs, first, middle, lst, i). lst - i)") auto

declare heap_select_loop.simps [simp del]

definition heap_select :: "Detection list \<Rightarrow> nat \<Rightarrow> nat \<Rightarrow> nat \<Rightarrow> Detection list" where
  "heap_select xs first middle lst = heap_select_loop (make_heap xs first middle) first middle lst middle"

definition partial_sort :: "Detection list \<Rightarrow> nat \<Rightarrow> nat \<Rightarrow> nat \<Rightarrow> Detection list" where
  "partial_sort xs first middle lst = sort_heap (heap_select xs first middle lst) first middle"

text \<open>\<^verbatim>\<open>std::__move_median_to_first(result, a, b, c, comp)\<close>.\<close>

definition move_median_to_first ::
  "Detection list \<Rightarrow> nat \<Rightarrow> nat \<Rightarrow> nat \<Rightarrow> nat \<Rightarrow> Detection list" where
  "move_median_to_first xs result a b c =
     (if conf_greater (xs ! a) (xs ! b) then
        (if conf_greater (xs ! b) (xs ! c) then iter_swap xs result b
         else if conf_greater (xs ! a) (xs ! c) then iter_swap xs result c
         else iter_swap xs result a)
      else if conf_greater (xs ! a) (xs ! c) then iter_swap xs result a
      else if conf_greater (xs ! b) (xs ! c) then iter_swap xs result c
      else iter_swap xs result b)"

text \<open>
  \<^verbatim>\<open>std::__unguarded_partition(first, last, pivot, comp)\<close>: its two inner loops
  \<^verbatim>\<open>while (__comp(__first, __pivot)) ++__first;\<close> and
  \<^verbatim>\<open>while (__comp(__pivot, __last)) --__last;\<close>, and the loop around them, which returns
  the changed list and \<^verbatim>\<open>__first\<close>.
\<close>

function partition_first :: "Detection list \<Rightarrow> nat \<Rightarrow> nat \<Rightarrow> nat" where
  "partition_first xs pivot first =
     (if first < length xs \<and> conf_greater (xs ! first) (xs ! pivot)
      then partition_first xs pivot (first + 1) else first)"
  by pat_completeness auto
termination
  by (relation "measure (\<lambda>(xs, pivot, first). length xs - first)") auto

declare partition_first.simps [simp del]

function partition_last :: "Detection list \<Rightarrow> nat \<Rightarrow> nat \<Rightarrow> nat" where
  "partition_last xs pivot lst =
     (if 0 < lst \<and> conf_greater (xs ! pivot) (xs ! lst)
      then partition_last xs pivot (lst - 1) else lst)"
  by pat_completeness auto
termination
  by (relation "measure (\<lambda>(xs, pivot, lst). lst)") auto

declare partition_last.simps [simp del]

function unguarded_partition ::
  "Detection list \<Rightarrow> nat \<Rightarrow> nat \<Rightarrow> nat \<Rightarrow> Detection list \<times> nat" where
  "unguarded_partition xs first lst pivot =
     (let first1 = partition_first xs pivot first;
          lst1 = partition_last xs pivot (lst - 1)
      in if \<not> first1 < lst1 then (xs, first1)
         else unguarded_partition (iter_swap xs first1 lst1) (first1 + 1) lst1 pivot)"
  by pat_completeness auto
termination
proof (relation "measure (\<lambda>(xs, first, lst, pivot). lst)", goal_cases)
  case 1
  show ?case by simp
next
  case (2 xs first lst pivot first1 lst1)
  have le: "partition_last ys p l \<le> l" for ys p l
  proof (induction ys p l rule: partition_last.induct)
    case (1 ys p l)
    then show ?case by (subst partition_last.simps) auto
  qed
  have "lst1 \<le> lst - 1" unfolding 2(2) by (rule le)
  moreover have "0 < lst1" using 2(3) by simp
  ultimately show ?case by simp
qed

declare unguarded_partition.simps [simp del]

text \<open>\<^verbatim>\<open>std::__unguarded_partition_pivot(first, last, comp)\<close>.\<close>

definition unguarded_partition_pivot :: "Detection list \<Rightarrow> nat \<Rightarrow> nat \<Rightarrow> Detection list \<times> nat" where
  "unguarded_partition_pivot xs first lst =
     (let mid = first + (lst - first) div 2
      in unguarded_partition (move_median_to_first xs first (first + 1) mid (lst - 1))
           (first + 1) lst first)"

text \<open>
  \<^verbatim>\<open>std::__introsort_loop(first, last, depth_limit, comp)\<close>, with \<^verbatim>\<open>_S_threshold\<close> = 16:
  the part from the cut on is sorted by the recursive call, the part before it by the
  next round of the loop.
\<close>

function introsort_loop :: "Detection list \<Rightarrow> nat \<Rightarrow> nat \<Rightarrow> nat \<Rightarrow> Detection list" where
  "introsort_loop xs first lst depth_limit =
     (if 16 < lst - first then
        (if depth_limit = 0 then partial_sort xs first lst lst
         else
           (case unguarded_partition_pivot xs first lst of
              (ys, cut_at) \<Rightarrow>
                introsort_loop (introsort_loop ys cut_at lst (depth_limit - 1))
                  first cut_at (depth_limit - 1)))
      else xs)"
  by pat_completeness auto
termination
  by (relation "measure (\<lambda>(xs, first, lst, depth_limit). depth_limit)") auto

declare introsort_loop.simps [simp del]

text \<open>
  \<^verbatim>\<open>std::__unguarded_linear_insert(last, comp)\<close>: the elements before \<open>lst\<close> that the
  value comes before move one position to the right.
\<close>

function unguarded_linear_insert_loop :: "Detection list \<Rightarrow> Detection \<Rightarrow> nat \<Rightarrow> Detection list" where
  "unguarded_linear_insert_loop xs val lst =
     (if 0 < lst \<and> conf_greater val (xs ! (lst - 1))
      then unguarded_linear_insert_loop (xs[lst := xs ! (lst - 1)]) val (lst - 1)
      else xs[lst := val])"
  by pat_completeness auto
termination
  by (relation "measure (\<lambda>(xs, val, lst). lst)") auto

declare unguarded_linear_insert_loop.simps [simp del]

definition unguarded_linear_insert :: "Detection list \<Rightarrow> nat \<Rightarrow> Detection list" where
  "unguarded_linear_insert xs lst = unguarded_linear_insert_loop xs (xs ! lst) lst"

text \<open>
  \<^verbatim>\<open>std::move_backward(first, last, last + 1)\<close>: the elements from \<open>first\<close> to
  \<open>lst - 1\<close> are copied one position to the right.
\<close>

definition move_backward :: "Detection list \<Rightarrow> nat \<Rightarrow> nat \<Rightarrow> Detection list" where
  "move_backward xs first lst = take (first + 1) xs @ take (lst - first) (drop first xs) @ drop (lst + 1) xs"

text \<open>\<^verbatim>\<open>std::__insertion_sort(first, last, comp)\<close> and its loop.\<close>

function insertion_sort_loop :: "Detection list \<Rightarrow> nat \<Rightarrow> nat \<Rightarrow> nat \<Rightarrow> Detection list" where
  "insertion_sort_loop xs first lst i =
     (if i < lst then
        insertion_sort_loop
          (if conf_greater (xs ! i) (xs ! first)
           then (move_backward xs first i)[first := xs ! i]
           else unguarded_linear_insert xs i)
          first lst (i + 1)
      else xs)"
  by pat_completeness auto
termination
  by (relation "measure (\<lambda>(xs, first, lst, i). lst - i)") auto

declare insertion_sort_loop.simps [simp del]

definition insertion_sort :: "Detection list \<Rightarrow> nat \<Rightarrow> nat \<Rightarrow> Detection list" where
  "insertion_sort xs first lst =
     (if first = lst then xs else insertion_sort_loop xs first lst (first + 1))"

text \<open>
  \<^verbatim>\<open>std::__unguarded_insertion_sort(first, last, comp)\<close> and
  \<^verbatim>\<open>std::__final_insertion_sort(first, last, comp)\<close>.
\<close>

function unguarded_insertion_sort :: "Detection list \<Rightarrow> nat \<Rightarrow> nat \<Rightarrow> Detection list" where
  "unguarded_insertion_sort xs first lst =
     (if first < lst then unguarded_insertion_sort (unguarded_linear_insert xs first) (first + 1) lst
      else xs)"
  by pat_completeness auto
termination
  by (relation "measure (\<lambda>(xs, first, lst). lst - first)") auto

declare unguarded_insertion_sort.simps [simp del]

definition final_insertion_sort :: "Detection list \<Rightarrow> nat \<Rightarrow> nat \<Rightarrow> Detection list" where
  "final_insertion_sort xs first lst =
     (if 16 < lst - first
      then unguarded_insertion_sort (insertion_sort xs first (first + 16)) (first + 16) lst
      else insertion_sort xs first lst)"

text \<open>\<^verbatim>\<open>std::sort(detections.begin(), detections.end(), comp)\<close>.\<close>

definition std_sort :: "Detection list \<Rightarrow> Detection list" where
  "std_sort xs =
     (if xs = [] then xs
      else final_insertion_sort
             (introsort_loop xs 0 (length xs) (lg (length xs) * 2)) 0 (length xs))"


subsection \<open>plate\_detection.cpp: the filter function\<close>

text \<open>
  \<^verbatim>\<open>HailoBBox\<close> and \<^verbatim>\<open>HailoDetection\<close> come from \<^verbatim>\<open>hailo_common.hpp\<close>; the fields are
  the ones the sources assign.
\<close>

record HailoBBox =
  bbox_x :: real
  bbox_y :: real
  bbox_width :: real
  bbox_height :: real

record HailoDetection =
  hd_bbox :: HailoBBox
  hd_confidence :: real
  hd_class_id :: int
  hd_label :: string


definition NMS_THRESHOLD :: real where
  "NMS_THRESHOLD = round32 0.45"





subsection \<open>plate\_crop.cpp\<close>

text \<open>
  \<^verbatim>\<open>HailoImage\<close> and \<^verbatim>\<open>HailoCroppedImage\<close> come from \<^verbatim>\<open>hailo_common.hpp\<close>; the
  fields are the ones the function reads and assigns. The box of a crop is built from
  four \<^verbatim>\<open>int\<close> values.
\<close>

record HailoImage =
  img_width :: int
  img_height :: int

record HailoCroppedImage =
  crop_bbox :: HailoBBox
  target_width :: int
  target_height :: int
  crop_detection :: HailoDetection

definition OCR_WIDTH :: int where
  "OCR_WIDTH = 200"

definition OCR_HEIGHT :: int where
  "OCR_HEIGHT = 64"

text \<open>
  \<^verbatim>\<open>static_cast<int>\<close> of a \<^verbatim>\<open>float\<close> truncates towards zero. For a value outside the
  range of \<^verbatim>\<open>int\<close> the conversion is undefined in C++ (processors give the least
  \<^verbatim>\<open>int\<close> or the nearest one). The conversion is therefore the parameter \<open>to_int\<close> of
  \<open>crop_plates\<close>, and \<open>static_cast_int\<close> is the conversion of the values in range.
  With a frame of at least one pixel each way no subtraction of the function leaves the
  range of \<^verbatim>\<open>int\<close>. The variable \<open>img\<close> is the \<^verbatim>\<open>image\<close> of the source.
\<close>

definition static_cast_int :: "real \<Rightarrow> int" where
  "static_cast_int r = (if 0 \<le> r then \<lfloor>r\<rfloor> else \<lceil>r\<rceil>)"

primrec crop_plates ::
  "(real \<Rightarrow> int) \<Rightarrow> HailoImage \<Rightarrow> HailoDetection list \<Rightarrow> HailoCroppedImage list" where
  "crop_plates to_int img [] = []"
| "crop_plates to_int img (det # detections) =
     (let x = to_int (bbox_x (hd_bbox det) * real_of_int (img_width img));
          y = to_int (bbox_y (hd_bbox det) * real_of_int (img_height img));
          w = to_int (bbox_width (hd_bbox det) * real_of_int (img_width img));
          h = to_int (bbox_height (hd_bbox det) * real_of_int (img_height img));
          x = max 0 (min x (img_width img - 1));
          y = max 0 (min y (img_height img - 1));
          w = min w (img_width img - x);
          h = min h (img_height img - y)
      in if w \<le> 0 \<or> h \<le> 0 then crop_plates to_int img detections
         else \<lparr>crop_bbox = \<lparr>bbox_x = real_of_int x, bbox_y = real_of_int y,
                             bbox_width = real_of_int w, bbox_height = real_of_int h\<rparr>,
               target_width = OCR_WIDTH,
               target_height = OCR_HEIGHT,
               crop_detection = det\<rparr>
              # crop_plates to_int img detections)"

subsection \<open>The decoder as the specification words it\<close>

text \<open>Row \<open>t\<close> of a buffer of rows of \<open>C\<close> values.\<close>

definition tensor_row :: "real list \<Rightarrow> nat \<Rightarrow> nat \<Rightarrow> real list" where
  "tensor_row data C t = take C (drop (t * C) data)"

text \<open>The index of the first occurrence of the maximum of a row.\<close>

definition first_max :: "real list \<Rightarrow> nat" where
  "first_max row = length (takeWhile (\<lambda>v. v \<noteq> Max (set row)) row)"

text \<open>
  \<open>i\<close> is the lowest index that holds the maximum: nothing in the row is larger, and
  everything before \<open>i\<close> is smaller.
\<close>

definition is_first_max :: "real list \<Rightarrow> nat \<Rightarrow> bool" where
  "is_first_max row i =
     (i < length row \<and> list_all (\<lambda>v. v \<le> row ! i) row \<and> list_all (\<lambda>v. v < row ! i) (take i row))"

text \<open>The chosen class and its value at each of the \<open>T\<close> timesteps.\<close>

definition ctc_steps :: "real list \<Rightarrow> nat \<Rightarrow> nat \<Rightarrow> (nat \<times> real) list" where
  "ctc_steps data C T =
     map (\<lambda>t. (first_max (tensor_row data C t), Max (set (tensor_row data C t)))) [0..<T]"

text \<open>
  Collapsing: a step is emitted when its class is not the blank, differs from the class
  chosen at the step before (the blank before the first step) and is the index of a
  character.
\<close>

fun ctc_collapse :: "nat \<Rightarrow> nat \<Rightarrow> (nat \<times> real) list \<Rightarrow> (nat \<times> real) list" where
  "ctc_collapse blank prev [] = []"
| "ctc_collapse blank prev ((i, p) # steps) =
     (if i \<noteq> blank \<and> i \<noteq> prev \<and> i < length CHARSET
      then (i, p) # ctc_collapse blank i steps
      else ctc_collapse blank i steps)"

definition ctc_emitted :: "real list \<Rightarrow> nat \<Rightarrow> nat \<Rightarrow> (nat \<times> real) list" where
  "ctc_emitted data C T = ctc_collapse (length CHARSET) (length CHARSET) (ctc_steps data C T)"

text \<open>The characters of the emitted steps.\<close>

definition emit_text :: "(nat \<times> real) list \<Rightarrow> string" where
  "emit_text em = map (\<lambda>(i, p). CHARSET ! i) em"

text \<open>
  Example buffers. \<open>abc_buf\<close> has 6 timesteps of 3 classes, the maxima at the classes
  0, 0, 2, 1, 1, 2. \<open>ab_buf\<close> has 6 timesteps of 37 classes, the maxima at 10, 10, 36,
  11, 11, 36 (\<open>one_hot C k\<close> is a row of \<open>C\<close> values whose only 1 is at \<open>k\<close>).
\<close>

definition abc_buf :: "real list" where
  "abc_buf = [1, 0, 0,  1, 0, 0,  0, 0, 1,  0, 1, 0,  0, 1, 0,  0, 0, 1]"

definition one_hot :: "nat \<Rightarrow> nat \<Rightarrow> real list" where
  "one_hot C k = replicate k 0 @ [1] @ replicate (C - k - 1) 0"

definition ab_buf :: "real list" where
  "ab_buf = concat (map (one_hot 37) [10, 10, 36, 11, 11, 36])"


subsection \<open>Boxes as the specification words them\<close>







text \<open>
  Example boxes, all of binary32 numbers: one of no extent, one of a negative width, the
  unit square, the unit square moved right by a half, and one away from both. \<open>plate_box\<close>
  is the box of the example of the specification, with the origin \<^verbatim>\<open>(0.4f, 0.45f)\<close> and the
  size \<^verbatim>\<open>(0.2f, 0.1f)\<close>; \<open>tiny_box\<close> has the origin \<^verbatim>\<open>(0.9f, 0.9f)\<close> and the size
  \<^verbatim>\<open>(4e-8f, 4e-8f)\<close>; \<open>huge_box\<close> has the origin \<open>(0, 0)\<close> and the size
  \<^verbatim>\<open>(1e20f, 1e20f)\<close>.
\<close>

definition point_box :: Detection where
  "point_box = \<lparr>det_x = 0.5, det_y = 0.5, det_width = 0, det_height = 0,
                det_confidence = 0.875, det_class_id = 0\<rparr>"


definition unit_box :: Detection where
  "unit_box = \<lparr>det_x = 0, det_y = 0, det_width = 1, det_height = 1,
               det_confidence = 0.875, det_class_id = 0\<rparr>"

definition shifted_box :: Detection where
  "shifted_box = \<lparr>det_x = 0.5, det_y = 0, det_width = 1, det_height = 1,
                  det_confidence = 0.75, det_class_id = 0\<rparr>"

definition far_box :: Detection where
  "far_box = \<lparr>det_x = 2, det_y = 0, det_width = 1, det_height = 1,
              det_confidence = 0.875, det_class_id = 0\<rparr>"




subsection \<open>Rows of a detection tensor\<close>









subsection \<open>Suppression as the specification words it\<close>

text \<open>\<^verbatim>\<open>compute_iou(a, b) > iou_threshold\<close>.\<close>

definition overlaps_above :: "real \<Rightarrow> Detection \<Rightarrow> Detection \<Rightarrow> bool" where
  "overlaps_above iou_threshold a b = float_gt (compute_iou a b) iou_threshold"

text \<open>
  Going through the detections in their order, each one that is not suppressed is accepted
  and suppresses every later one whose overlap with it exceeds the threshold.
\<close>

function greedy_nms :: "real \<Rightarrow> Detection list \<Rightarrow> Detection list" where
  "greedy_nms iou_threshold [] = []"
| "greedy_nms iou_threshold (d # ds) =
     d # greedy_nms iou_threshold (filter (\<lambda>e. \<not> overlaps_above iou_threshold d e) ds)"
  by pat_completeness auto
termination
  by (relation "measure (\<lambda>(t, ds). length ds)") (auto simp: less_Suc_eq_le)

text \<open>The detections from position \<open>i\<close> on that are not marked in \<open>suppressed\<close>.\<close>

definition unsuppressed :: "Detection list \<Rightarrow> nat \<Rightarrow> bool list \<Rightarrow> Detection list" where
  "unsuppressed ds i suppressed = map ((!) ds) (filter (\<lambda>k. \<not> suppressed ! k) [i..<length ds])"

text \<open>
  More example boxes: the unit square moved right by a quarter, and a second box of no
  extent. \<open>spread_boxes\<close> are 17 unit squares of one confidence, two units apart from
  each other; in \<open>tie_boxes\<close> the ninth of them is moved onto the first, to a quarter
  right of it.
\<close>

definition near_box :: Detection where
  "near_box = \<lparr>det_x = 0.25, det_y = 0, det_width = 1, det_height = 1,
               det_confidence = 0.75, det_class_id = 0\<rparr>"

definition point_box2 :: Detection where
  "point_box2 = \<lparr>det_x = 0.5, det_y = 0.5, det_width = 0, det_height = 0,
                 det_confidence = 0.75, det_class_id = 0\<rparr>"

definition square_at :: "real \<Rightarrow> Detection" where
  "square_at x = \<lparr>det_x = x, det_y = 0, det_width = 1, det_height = 1,
                  det_confidence = 0.75, det_class_id = 0\<rparr>"

definition spread_boxes :: "Detection list" where
  "spread_boxes = map square_at [0, 2, 4, 6, 8, 10, 12, 14, 16, 18, 20, 22, 24, 26, 28, 30, 32]"

definition tie_boxes :: "Detection list" where
  "tie_boxes = map square_at [0, 2, 4, 6, 8, 10, 12, 14, 0.25, 18, 20, 22, 24, 26, 28, 30, 32]"

subsection \<open>Crop regions as the specification words them\<close>

text \<open>
  The clamped origin and size of a detection in a frame, and a box that lies in the
  frame: the origin is in \<open>[0, W - 1] \<times> [0, H - 1]\<close>, the size is positive, and origin
  plus size does not exceed the frame.
\<close>

definition clamped_x :: "(real \<Rightarrow> int) \<Rightarrow> HailoImage \<Rightarrow> HailoDetection \<Rightarrow> int" where
  "clamped_x to_int img det =
     max 0 (min (to_int (bbox_x (hd_bbox det) * real_of_int (img_width img)))
                (img_width img - 1))"

definition clamped_y :: "(real \<Rightarrow> int) \<Rightarrow> HailoImage \<Rightarrow> HailoDetection \<Rightarrow> int" where
  "clamped_y to_int img det =
     max 0 (min (to_int (bbox_y (hd_bbox det) * real_of_int (img_height img)))
                (img_height img - 1))"

definition clamped_width :: "(real \<Rightarrow> int) \<Rightarrow> HailoImage \<Rightarrow> HailoDetection \<Rightarrow> int" where
  "clamped_width to_int img det =
     min (to_int (bbox_width (hd_bbox det) * real_of_int (img_width img)))
         (img_width img - clamped_x to_int img det)"

definition clamped_height :: "(real \<Rightarrow> int) \<Rightarrow> HailoImage \<Rightarrow> HailoDetection \<Rightarrow> int" where
  "clamped_height to_int img det =
     min (to_int (bbox_height (hd_bbox det) * real_of_int (img_height img)))
         (img_height img - clamped_y to_int img det)"

definition region_in_frame :: "HailoImage \<Rightarrow> HailoBBox \<Rightarrow> bool" where
  "region_in_frame img b =
     (0 \<le> bbox_x b \<and> bbox_x b \<le> real_of_int (img_width img) - 1
      \<and> 0 \<le> bbox_y b \<and> bbox_y b \<le> real_of_int (img_height img) - 1
      \<and> 0 < bbox_width b \<and> bbox_width b \<le> real_of_int (img_width img) - bbox_x b
      \<and> 0 < bbox_height b \<and> bbox_height b \<le> real_of_int (img_height img) - bbox_y b)"

text \<open>A frame of 800 by 400 pixels and a detection with a given box.\<close>

definition frame_800_400 :: HailoImage where
  "frame_800_400 = \<lparr>img_width = 800, img_height = 400\<rparr>"

definition plate_at :: "real \<Rightarrow> real \<Rightarrow> real \<Rightarrow> real \<Rightarrow> HailoDetection" where
  "plate_at x y w h =
     \<lparr>hd_bbox = \<lparr>bbox_x = x, bbox_y = y, bbox_width = w, bbox_height = h\<rparr>,
      hd_confidence = 0.9, hd_class_id = 0, hd_label = ''license_plate''\<rparr>"

subsection \<open>Validation\<close>

lemma clean_loop_filter: "clean_loop str cleaned = cleaned @ filter charset_has str"
  by (induction str arbitrary: cleaned) simp_all

lemma filter_all_valid: "list_all charset_has str \<Longrightarrow> filter charset_has str = str"
  by (induction str) simp_all

text \<open>
  C8. \<^verbatim>\<open>validate_plate_text\<close> first removes every character that is not in the character
  set and then returns the cleaned string exactly when its length is between 4 and 8
  (both included), the empty string otherwise. So a string of 4 to 8 valid characters
  comes back unchanged, and a string of 3 or of 9 valid characters is rejected.
\<close>

theorem validate_plate_text_spec:
  "validate_plate_text str =
     (if 4 \<le> length (filter charset_has str) \<and> length (filter charset_has str) \<le> 8
      then filter charset_has str else [])
   \<and> (list_all charset_has str \<and> 4 \<le> length str \<and> length str \<le> 8
        \<longrightarrow> validate_plate_text str = str)
   \<and> (list_all charset_has str \<and> (length str = 3 \<or> length str = 9)
        \<longrightarrow> validate_plate_text str = [])"
  by (auto simp: validate_plate_text_def clean_loop_filter filter_all_valid Let_def)

theorem validate_plate_text_spec_witness:
  "validate_plate_text ''AB12'' = ''AB12''
   \<and> validate_plate_text ''ABC12345'' = ''ABC12345''
   \<and> validate_plate_text ''A-B 1.2'' = ''AB12''
   \<and> validate_plate_text ''AB1'' = []
   \<and> validate_plate_text ''ABCD12345'' = []"
  using validate_plate_text_spec [of "''AB12''"]
    validate_plate_text_spec [of "''ABC12345''"]
    validate_plate_text_spec [of "''A-B 1.2''"]
    validate_plate_text_spec [of "''AB1''"]
    validate_plate_text_spec [of "''ABCD12345''"]
  by (simp add: charset_has_def CHARSET_def)

subsection \<open>The decoder loops\<close>

lemma load_nat: "i < length data \<Longrightarrow> load data (int i) = Some (data ! i)"
  by (simp add: load_def)

lemma length_tensor_row: "Suc t * C \<le> length data \<Longrightarrow> length (tensor_row data C t) = C"
  by (simp add: tensor_row_def)

lemma tensor_row_nth:
  "Suc t * C \<le> length data \<Longrightarrow> c < C \<Longrightarrow> tensor_row data C t ! c = data ! (t * C + c)"
  by (simp add: tensor_row_def)

lemma Max_snoc: "xs \<noteq> [] \<Longrightarrow> Max (set (xs @ [x])) = max (Max (set xs)) (x::real)"
  by (simp add: max.commute)

lemma first_max_le: "xs \<noteq> [] \<Longrightarrow> first_max xs < length xs"
proof -
  assume "xs \<noteq> []"
  then have "Max (set xs) \<in> set xs" by simp
  then have "takeWhile (\<lambda>v. v \<noteq> Max (set xs)) xs \<noteq> xs"
    by (auto simp: takeWhile_eq_all_conv)
  moreover have "length (takeWhile (\<lambda>v. v \<noteq> Max (set xs)) xs) \<le> length xs"
    by (rule length_takeWhile_le)
  moreover have "takeWhile (\<lambda>v. v \<noteq> Max (set xs)) xs
                 = take (length (takeWhile (\<lambda>v. v \<noteq> Max (set xs)) xs)) xs"
    by (rule takeWhile_eq_take)
  ultimately show ?thesis
    unfolding first_max_def by (metis le_neq_implies_less take_all order_refl)
qed

lemma first_max_snoc:
  assumes "xs \<noteq> []"
  shows "first_max (xs @ [x]) = (if x > Max (set xs) then length xs else first_max xs)"
proof (cases "x > Max (set xs)")
  case True
  have lt: "\<forall>v\<in>set xs. v < x" using True assms by simp
  have "max (Max (set xs)) x = x" using True by (simp add: max_def)
  then have m: "Max (set (xs @ [x])) = x" using Max_snoc [OF assms, of x] by simp
  have "\<forall>v\<in>set xs. v \<noteq> x" using lt by auto
  then show ?thesis using True unfolding first_max_def m by (simp add: takeWhile_append2)
next
  case False
  then have "max (Max (set xs)) x = Max (set xs)" by (simp add: max_def)
  then have m: "Max (set (xs @ [x])) = Max (set xs)" using Max_snoc [OF assms, of x] by simp
  have "Max (set xs) \<in> set xs" using assms by simp
  then show ?thesis using False unfolding first_max_def m by (simp add: takeWhile_append1)
qed

lemma row_take_Suc:
  "c < length row \<Longrightarrow> take (Suc c) row = take c row @ [row ! c]"
  by (simp add: take_Suc_conv_app_nth)

lemma argmax_loop_correct:
  assumes "Suc t * C \<le> length data" "c \<le> C" "0 < c"
    and "max_idx = first_max (take c (tensor_row data C t))"
    and "max_prob = Max (set (take c (tensor_row data C t)))"
  shows "argmax_loop data (int t) (int C) (int c) (int max_idx) max_prob
         = Some (int (first_max (tensor_row data C t)), Max (set (tensor_row data C t)))"
  using assms
proof (induction "C - c" arbitrary: c max_idx max_prob)
  case 0
  then have "c = C" by simp
  with 0 show ?case by (subst argmax_loop.simps) (simp add: length_tensor_row)
next
  case (Suc k)
  let ?row = "tensor_row data C t"
  from Suc have cC: "c < C" by simp
  have len: "length ?row = C" using Suc.prems by (simp add: length_tensor_row)
  have idx: "t * C + c < length data" using cC Suc.prems(1) by (simp add: add.commute less_le_trans)
  have ld: "load data (int t * int C + int c) = Some (?row ! c)"
    using load_nat [OF idx] tensor_row_nth [OF Suc.prems(1) cC]
    by (metis of_nat_add of_nat_mult)
  have ne: "take c ?row \<noteq> []" using Suc.prems len cC by auto
  have tk: "take (Suc c) ?row = take c ?row @ [?row ! c]"
    by (rule row_take_Suc) (simp add: len cC)
  have step: "argmax_loop data (int t) (int C) (int (Suc c))
                (int (first_max (take (Suc c) ?row))) (Max (set (take (Suc c) ?row)))
              = Some (int (first_max ?row), Max (set ?row))"
    using Suc.hyps(1) [of "Suc c"] Suc.hyps(2) Suc.prems cC by simp
  have lenc: "length (take c ?row) = c" using cC len by simp
  show ?case
  proof (cases "?row ! c > max_prob")
    case True
    then have "first_max (take (Suc c) ?row) = c" "Max (set (take (Suc c) ?row)) = ?row ! c"
      using first_max_snoc [OF ne] Max_snoc [OF ne] Suc.prems(5) lenc unfolding tk by (simp_all add: max_def)
    with step True cC ld show ?thesis
      by (subst argmax_loop.simps) (simp add: add.commute)
  next
    case False
    then have "first_max (take (Suc c) ?row) = max_idx" "Max (set (take (Suc c) ?row)) = max_prob"
      using first_max_snoc [OF ne] Max_snoc [OF ne] Suc.prems(4,5) unfolding tk by (simp_all add: max_def)
    with step False cC ld show ?thesis
      by (subst argmax_loop.simps) (simp add: add.commute)
  qed
qed


lemma first_max_single: "first_max [v] = 0"
  by (simp add: first_max_def)

lemma argmax_row:
  assumes "Suc t * C \<le> length data" "0 < C"
  shows "argmax_loop data (int t) (int C) 1 0 (data ! (t * C))
         = Some (int (first_max (tensor_row data C t)), Max (set (tensor_row data C t)))"
proof -
  let ?row = "tensor_row data C t"
  have len: "length ?row = C" using assms by (simp add: length_tensor_row)
  have r0: "?row ! 0 = data ! (t * C)" using tensor_row_nth [OF assms(1), of 0] assms(2) by simp
  have tk: "take (Suc 0) ?row = [data ! (t * C)]"
    using len assms(2) r0 by (cases ?row) simp_all
  have "argmax_loop data (int t) (int C) (int (Suc 0)) (int 0) (data ! (t * C))
         = Some (int (first_max ?row), Max (set ?row))"
  proof (rule argmax_loop_correct [OF assms(1)])
    show "Suc 0 \<le> C" using assms(2) by simp
    show "0 < Suc 0" by simp
    show "0 = first_max (take (Suc 0) ?row)" unfolding tk by (simp add: first_max_single)
    show "data ! (t * C) = Max (set (take (Suc 0) ?row))" unfolding tk by simp
  qed
  then show ?thesis by simp
qed

lemma decode_loop_correct:
  assumes "0 < C" "T * C \<le> length data" "t \<le> T"
  shows "decode_loop data (int T) (int C) (int t) (int prev) tot cnt res
         = (let em = ctc_collapse (length CHARSET) prev
                       (map (\<lambda>t. (first_max (tensor_row data C t), Max (set (tensor_row data C t)))) [t..<T])
            in Some (res\<lparr>ocr_text := ocr_text res @ emit_text em,
                          char_confidences := char_confidences res @ map snd em\<rparr>,
                     tot + sum_list (map snd em), cnt + int (length em)))"
  using assms(3)
proof (induction "T - t" arbitrary: t prev tot cnt res)
  case 0
  then have "t = T" by simp
  then show ?case by (subst decode_loop.simps) (simp add: emit_text_def)
next
  case (Suc k)
  then have tT: "t < T" by simp
  have le: "Suc t * C \<le> length data"
    using tT assms(2) by (meson Suc_leI le_trans mult_le_mono1)
  have idx: "t * C < length data" using le assms(1) by simp
  have ld: "load data (int t * int C) = Some (data ! (t * C))"
    using load_nat [OF idx] by (metis of_nat_mult)
  note am = argmax_row [OF le assms(1)]
  have upt: "[t..<T] = t # [Suc t..<T]" using tT by (simp add: upt_conv_Cons)
  have IH: "\<And>prev tot cnt res. decode_loop data (int T) (int C) (int t + 1) (int prev) tot cnt res
         = (let em = ctc_collapse (length CHARSET) prev
                       (map (\<lambda>t. (first_max (tensor_row data C t), Max (set (tensor_row data C t)))) [Suc t..<T])
            in Some (res\<lparr>ocr_text := ocr_text res @ emit_text em,
                          char_confidences := char_confidences res @ map snd em\<rparr>,
                     tot + sum_list (map snd em), cnt + int (length em)))"
    using Suc.hyps(1) [of "Suc t"] Suc.hyps(2) tT by (simp add: add.commute)
  show ?case
    using tT ld am
    by (subst decode_loop.simps)
       (simp add: upt IH BLANK_INDEX_def Let_def emit_text_def)
qed

lemma ctc_greedy_decode_eq:
  assumes "0 < C" "T * C \<le> length data"
  shows "ctc_greedy_decode data (int T) (int C)
         = Some \<lparr>ocr_text = emit_text (ctc_emitted data C T),
                 ocr_confidence =
                   (if ctc_emitted data C T = [] then 0
                    else sum_list (map snd (ctc_emitted data C T))
                         / real (length (ctc_emitted data C T))),
                 char_confidences = map snd (ctc_emitted data C T)\<rparr>"
  using decode_loop_correct [OF assms, of 0 "length CHARSET" 0 0]
  by (simp add: ctc_greedy_decode_def BLANK_INDEX_def Let_def ctc_emitted_def ctc_steps_def)

lemma first_max_is_first_max:
  assumes "row \<noteq> []"
  shows "is_first_max row (first_max row)"
proof -
  let ?P = "\<lambda>v. v \<noteq> Max (set row)"
  have lt: "first_max row < length row" by (rule first_max_le [OF assms])
  then have at: "row ! first_max row = Max (set row)"
    using nth_length_takeWhile [of ?P row] by (simp add: first_max_def)
  have ge: "list_all (\<lambda>v. v \<le> Max (set row)) row"
    by (simp add: list_all_iff)
  have "take (first_max row) row = takeWhile ?P row"
    unfolding first_max_def by (rule takeWhile_eq_take [symmetric])
  moreover have "list_all (\<lambda>v. v < Max (set row)) (takeWhile ?P row)"
  proof -
    have "\<And>v. v \<in> set (takeWhile ?P row) \<Longrightarrow> v < Max (set row)"
    proof -
      fix v assume v: "v \<in> set (takeWhile ?P row)"
      then have vin: "v \<in> set row" and vne: "v \<noteq> Max (set row)"
        by (auto dest: set_takeWhileD)
      have "v \<le> Max (set row)"
        by (rule Max_ge) (simp_all add: vin)
      then show "v < Max (set row)" using vne by (rule le_neq_trans)
    qed
    then show ?thesis by (simp add: list_all_iff)
  qed
  ultimately show ?thesis
    using lt at ge by (simp add: is_first_max_def)
qed






lemma length_ctc_steps: "length (ctc_steps data C T) = T"
  by (simp add: ctc_steps_def)

lemma ctc_steps_nth:
  "t < T \<Longrightarrow> ctc_steps data C T ! t
     = (first_max (tensor_row data C t), Max (set (tensor_row data C t)))"
  by (simp add: ctc_steps_def)

lemma ctc_steps_first_max:
  assumes "0 < C" "T * C \<le> length data"
  shows "list_all (\<lambda>t. is_first_max (tensor_row data C t) (fst (ctc_steps data C T ! t))) [0..<T]"
proof -
  have "\<And>t. t < T \<Longrightarrow> is_first_max (tensor_row data C t) (fst (ctc_steps data C T ! t))"
  proof -
    fix t assume t: "t < T"
    then have "Suc t * C \<le> length data"
      using assms(2) by (meson Suc_leI le_trans mult_le_mono1)
    then have "length (tensor_row data C t) = C" by (rule length_tensor_row)
    then have "tensor_row data C t \<noteq> []" using assms(1) by auto
    then show "is_first_max (tensor_row data C t) (fst (ctc_steps data C T ! t))"
      using t by (simp add: ctc_steps_nth first_max_is_first_max)
  qed
  then show ?thesis by (simp add: list_all_iff)
qed

lemma is_first_max_unique:
  assumes "is_first_max row i" "is_first_max row j"
  shows "i = j"
proof (rule ccontr)
  assume ne: "i \<noteq> j"
  have a: "i < length row" "j < length row" using assms by (simp_all add: is_first_max_def)
  have lei: "\<forall>v\<in>set row. v \<le> row ! i" and lej: "\<forall>v\<in>set row. v \<le> row ! j"
    using assms by (simp_all add: is_first_max_def list_all_iff)
  have eq: "row ! i = row ! j"
    using lei lej a by (meson nth_mem order_antisym)
  show False
  proof (cases "i < j")
    case True
    then have "row ! i \<in> set (take j row)" using a by (metis in_set_conv_nth length_take min_less_iff_conj nth_take)
    then have "row ! i < row ! j" using assms(2) by (simp add: is_first_max_def list_all_iff)
    with eq show False by simp
  next
    case False
    then have "j < i" using ne by simp
    then have "row ! j \<in> set (take i row)" using a by (metis in_set_conv_nth length_take min_less_iff_conj nth_take)
    then have "row ! j < row ! i" using assms(1) by (simp add: is_first_max_def list_all_iff)
    with eq show False by simp
  qed
qed




subsection \<open>What the decoder emits\<close>

text \<open>
  C1, amended. For a buffer of \<open>T\<close> timesteps by \<open>C\<close> classes (\<open>C \<ge> 1\<close>, at least
  \<open>T * C\<close> values), \<^verbatim>\<open>ctc_greedy_decode\<close> returns, and it chooses at each timestep the
  lowest index that holds the maximum of the row. It emits the character
  \<open>CHARSET ! i\<close> of the chosen index \<open>i\<close> exactly when \<open>i\<close> differs from the fixed
  blank index 36 (the length of \<open>CHARSET\<close>, whatever \<open>C\<close> is), differs from the index
  chosen at the timestep before (36 before the first) and is below 36. For \<open>T = 6\<close>, \<open>C = 37\<close>
  and the chosen indices 10, 10, 36, 11, 11, 36 the text is \<open>''AB''\<close>.
\<close>

theorem ctc_greedy_decode_text:
  assumes "0 < C" and "T * C \<le> length data"
  shows "\<exists>r. ctc_greedy_decode data (int T) (int C) = Some r
           \<and> ocr_text r = emit_text (ctc_collapse (length CHARSET) (length CHARSET)
                                        (ctc_steps data C T))
           \<and> length (ctc_steps data C T) = T
           \<and> list_all (\<lambda>t. is_first_max (tensor_row data C t) (fst (ctc_steps data C T ! t)))
                 [0..<T]"
  using ctc_greedy_decode_eq [OF assms] ctc_steps_first_max [OF assms]
  by (simp add: ctc_emitted_def length_ctc_steps)

theorem ctc_greedy_decode_text_witness:
  "map_option ocr_text (ctc_greedy_decode ab_buf 6 37) = Some ''AB''"
proof -
  have len: "6 * 37 \<le> length ab_buf" by (simp add: ab_buf_def one_hot_def)
  have steps: "ctc_steps ab_buf 37 6 = [(10, 1), (10, 1), (36, 1), (11, 1), (11, 1), (36, 1)]"
    by (simp add: ab_buf_def one_hot_def ctc_steps_def first_max_def tensor_row_def upt_rec
        eval_nat_numeral)
  have "0 < (37::nat)" by simp
  from ctc_greedy_decode_text [OF this len] show ?thesis
    unfolding steps by (auto simp: emit_text_def CHARSET_def)
qed

text \<open>
  C1 as stated fails: with \<open>T = 6\<close>, \<open>C = 3\<close> and the chosen indices 0, 0, 2, 1, 1, 2 the
  index 2 is not the blank of the code and the characters of the classes 0 and 1 are
  \<open>0\<close> and \<open>1\<close>, so the text is \<open>''0212''\<close>, not \<open>''AB''\<close>.
\<close>

theorem ctc_blank_is_not_last_class_counterexample:
  "map (\<lambda>t. first_max (tensor_row abc_buf 3 t)) [0..<6] = [0, 0, 2, 1, 1, 2]
   \<and> map_option ocr_text (ctc_greedy_decode abc_buf 6 3) = Some ''0212''
   \<and> map_option ocr_text (ctc_greedy_decode abc_buf 6 3) \<noteq> Some ''AB''"
proof -
  have a: "map (\<lambda>t. first_max (tensor_row abc_buf 3 t)) [0..<6] = [0, 0, 2, 1, 1, 2]"
    by (simp add: abc_buf_def first_max_def tensor_row_def upt_rec)
  have b: "map_option ocr_text (ctc_greedy_decode abc_buf 6 3) = Some ''0212''"
    by (simp add: ctc_greedy_decode_def abc_buf_def decode_loop.simps argmax_loop.simps
        load_def BLANK_INDEX_def CHARSET_def)
  show ?thesis using a b by auto
qed




subsection \<open>The result of plate\_ocr\<close>




subsection \<open>Intersection over union\<close>

lemmas f32_eval =
  f32_def round32_def ulp32_def ulp_up.simps ulp_down.simps round_half_even_def

lemmas iou_eval =
  compute_iou_def float_max_def float_min_def signed_infinity_def Let_def

lemma f32_small:
  "f32 0 = Finite 0" "f32 1 = Finite 1" "f32 2 = Finite 2" "f32 3 = Finite 3"
  "f32 (1 / 2) = Finite (1 / 2)" "f32 (1 / 4) = Finite (1 / 4)" "f32 (3 / 4) = Finite (3 / 4)"
  "f32 (3 / 2) = Finite (3 / 2)" "f32 (5 / 4) = Finite (5 / 4)"
  by (simp_all add: f32_eval Let_def)

lemma f32_not_NaN [simp]: "f32 x \<noteq> NaN"
  by (simp add: f32_def Let_def)

lemma float_add_commute: "float_add a b = float_add b a"
  by (cases a; cases b) (simp_all add: add.commute)

lemma float_max_commute: "a \<noteq> NaN \<Longrightarrow> b \<noteq> NaN \<Longrightarrow> float_max a b = float_max b a"
  by (cases a; cases b) (auto simp: float_max_def)

lemma float_min_commute: "a \<noteq> NaN \<Longrightarrow> b \<noteq> NaN \<Longrightarrow> float_min a b = float_min b a"
  by (cases a; cases b) (auto simp: float_min_def)

lemma compute_iou_sym: "compute_iou a b = compute_iou b a"
proof -
  have x1: "float_max (Finite (det_x b)) (Finite (det_x a))
            = float_max (Finite (det_x a)) (Finite (det_x b))"
    by (rule float_max_commute) simp_all
  have y1: "float_max (Finite (det_y b)) (Finite (det_y a))
            = float_max (Finite (det_y a)) (Finite (det_y b))"
    by (rule float_max_commute) simp_all
  have x2: "float_min (float_add (Finite (det_x b)) (Finite (det_width b)))
                      (float_add (Finite (det_x a)) (Finite (det_width a)))
            = float_min (float_add (Finite (det_x a)) (Finite (det_width a)))
                        (float_add (Finite (det_x b)) (Finite (det_width b)))"
    by (rule float_min_commute) simp_all
  have y2: "float_min (float_add (Finite (det_y b)) (Finite (det_height b)))
                      (float_add (Finite (det_y a)) (Finite (det_height a)))
            = float_min (float_add (Finite (det_y a)) (Finite (det_height a)))
                        (float_add (Finite (det_y b)) (Finite (det_height b)))"
    by (rule float_min_commute) simp_all
  have ar: "float_add (float_mul (Finite (det_width b)) (Finite (det_height b)))
                      (float_mul (Finite (det_width a)) (Finite (det_height a)))
            = float_add (float_mul (Finite (det_width a)) (Finite (det_height a)))
                        (float_mul (Finite (det_width b)) (Finite (det_height b)))"
    by (rule float_add_commute)
  show ?thesis
    unfolding compute_iou_def Let_def x1 y1 x2 y2 ar ..
qed







subsection \<open>Decoding the detection tensor\<close>



















subsection \<open>The loops of apply\_nms\<close>

lemmas example_boxes =
  unit_box_def shifted_box_def far_box_def near_box_def point_box_def point_box2_def

lemma nms_inner_nth:
  "length suppressed = length ds \<Longrightarrow>
   length (nms_inner ds t i j suppressed) = length ds
   \<and> (\<forall>k<length ds. nms_inner ds t i j suppressed ! k
         = (suppressed ! k \<or> (j \<le> k \<and> overlaps_above t (ds ! i) (ds ! k))))"
proof (induction ds t i j suppressed rule: nms_inner.induct)
  case (1 ds t i j suppressed)
  show ?case
  proof (cases "j < length ds")
    case False
    then show ?thesis using "1.prems" by (subst (1 2) nms_inner.simps) auto
  next
    case jl: True
    show ?thesis
    proof (cases "suppressed ! j")
      case True
      have eq: "nms_inner ds t i j suppressed = nms_inner ds t i (j + 1) suppressed"
        using jl True by (subst nms_inner.simps) simp
      have IH: "length (nms_inner ds t i (j + 1) suppressed) = length ds
        \<and> (\<forall>k<length ds. nms_inner ds t i (j + 1) suppressed ! k
              = (suppressed ! k \<or> (j + 1 \<le> k \<and> overlaps_above t (ds ! i) (ds ! k))))"
        using "1.IH"(1) [OF jl True "1.prems"] .
      show ?thesis unfolding eq using IH True
        by (auto simp: Suc_le_eq le_less)
    next
      case sj: False
      show ?thesis
      proof (cases "float_gt (compute_iou (ds ! i) (ds ! j)) t")
        case True
        have eq: "nms_inner ds t i j suppressed = nms_inner ds t i (j + 1) (suppressed[j := True])"
          using jl sj True by (subst nms_inner.simps) simp
        have len: "length (suppressed[j := True]) = length ds" using "1.prems" by simp
        have IH: "length (nms_inner ds t i (j + 1) (suppressed[j := True])) = length ds
          \<and> (\<forall>k<length ds. nms_inner ds t i (j + 1) (suppressed[j := True]) ! k
                = (suppressed[j := True] ! k \<or> (j + 1 \<le> k \<and> overlaps_above t (ds ! i) (ds ! k))))"
          using "1.IH"(2) [OF jl sj True len] .
        show ?thesis unfolding eq using IH True jl "1.prems"
          by (auto simp: nth_list_update overlaps_above_def Suc_le_eq le_less)
      next
        case False
        have eq: "nms_inner ds t i j suppressed = nms_inner ds t i (j + 1) suppressed"
          using jl sj False by (subst nms_inner.simps) simp
        have IH: "length (nms_inner ds t i (j + 1) suppressed) = length ds
          \<and> (\<forall>k<length ds. nms_inner ds t i (j + 1) suppressed ! k
                = (suppressed ! k \<or> (j + 1 \<le> k \<and> overlaps_above t (ds ! i) (ds ! k))))"
          using "1.IH"(3) [OF jl sj False "1.prems"] .
        show ?thesis unfolding eq using IH False
          by (auto simp: overlaps_above_def Suc_le_eq le_less)
      qed
    qed
  qed
qed

lemma unsuppressed_end: "length ds \<le> i \<Longrightarrow> unsuppressed ds i suppressed = []"
  by (simp add: unsuppressed_def)

lemma unsuppressed_step:
  "i < length ds \<Longrightarrow> unsuppressed ds i suppressed
     = (if suppressed ! i then unsuppressed ds (Suc i) suppressed
        else ds ! i # unsuppressed ds (Suc i) suppressed)"
  by (simp add: unsuppressed_def upt_conv_Cons)

lemma unsuppressed_inner:
  assumes "length suppressed = length ds" "i < length ds"
  shows "unsuppressed ds (Suc i) (nms_inner ds t i (Suc i) suppressed)
         = filter (\<lambda>e. \<not> overlaps_above t (ds ! i) e) (unsuppressed ds (Suc i) suppressed)"
proof -
  have "filter (\<lambda>k. \<not> nms_inner ds t i (Suc i) suppressed ! k) [Suc i..<length ds]
        = filter (\<lambda>k. \<not> overlaps_above t (ds ! i) (ds ! k))
            (filter (\<lambda>k. \<not> suppressed ! k) [Suc i..<length ds])"
    using nms_inner_nth [OF assms(1), of t i "Suc i"]
    by (auto simp: filter_filter intro!: filter_cong)
  then show ?thesis
    by (simp add: unsuppressed_def filter_map o_def)
qed

lemma nms_outer_greedy:
  "length suppressed = length ds \<Longrightarrow>
   nms_outer ds t i suppressed result = result @ greedy_nms t (unsuppressed ds i suppressed)"
proof (induction ds t i suppressed result rule: nms_outer.induct)
  case (1 ds t i suppressed result)
  show ?case
  proof (cases "i < length ds")
    case False
    then show ?thesis by (subst nms_outer.simps) (simp add: unsuppressed_end)
  next
    case il: True
    show ?thesis
    proof (cases "suppressed ! i")
      case True
      show ?thesis
        using il True "1.IH"(1) [OF il True "1.prems"]
        by (subst nms_outer.simps) (simp add: unsuppressed_step)
    next
      case False
      have len: "length (nms_inner ds t i (i + 1) suppressed) = length ds"
        using nms_inner_nth [OF "1.prems"] by simp
      show ?thesis
        using il False "1.IH"(2) [OF il False len] unsuppressed_inner [OF "1.prems" il, of t]
        by (subst nms_outer.simps) (simp add: unsuppressed_step)
    qed
  qed
qed

lemma apply_nms_greedy: "apply_nms srt ds t = greedy_nms t (srt ds)"
proof -
  have "unsuppressed (srt ds) 0 (replicate (length (srt ds)) False) = srt ds"
    by (simp add: unsuppressed_def map_nth)
  then show ?thesis
    by (simp add: apply_nms_def Let_def nms_outer_greedy)
qed

subsection \<open>The sort of libstdc++\<close>

text \<open>
  The heap sort and the partitions permute the list, and the final insertion sort is the
  stable sort. So \<open>std_sort\<close> is the stable sort of the list that the introsort loop
  leaves, which is the list itself when it has at most 16 elements.
\<close>

lemma hole_move:
  assumes "i < length xs" "j < length xs"
  shows "mset (xs[i := xs ! j, j := v]) = mset (xs[i := v])"
proof (cases "i = j")
  case True
  then show ?thesis by simp
next
  case False
  let ?ys = "xs[i := v]"
  have "xs[i := xs ! j, j := v] = ?ys[i := ?ys ! j, j := ?ys ! i]"
    using False assms by simp
  moreover have "mset (?ys[i := ?ys ! j, j := ?ys ! i]) = mset ?ys"
    by (rule mset_swap) (use assms in simp_all)
  ultimately show ?thesis by simp
qed

lemma push_heap_mset:
  "first + holeIndex < length xs \<Longrightarrow>
   length (push_heap xs first holeIndex topIndex val) = length xs
   \<and> mset (push_heap xs first holeIndex topIndex val) = mset (xs[first + holeIndex := val])"
proof (induction xs first holeIndex topIndex val rule: push_heap.induct)
  case (1 xs first holeIndex topIndex val)
  let ?parent = "(holeIndex - 1) div 2"
  show ?case
  proof (cases "topIndex < holeIndex \<and> conf_greater (xs ! (first + ?parent)) val")
    case False
    then show ?thesis by (subst (1 2) push_heap.simps) (auto simp: Let_def)
  next
    case True
    let ?xs = "xs[first + holeIndex := xs ! (first + ?parent)]"
    have p: "first + ?parent < length xs" using "1.prems" by simp
    have eq: "push_heap xs first holeIndex topIndex val = push_heap ?xs first ?parent topIndex val"
      using True by (subst push_heap.simps) (simp add: Let_def)
    have IH: "length (push_heap ?xs first ?parent topIndex val) = length ?xs
              \<and> mset (push_heap ?xs first ?parent topIndex val) = mset (?xs[first + ?parent := val])"
      using "1.IH" [OF refl] True p by simp
    show ?thesis
      unfolding eq using IH hole_move [OF "1.prems" p, of val] by simp
  qed
qed

lemma adjust_heap_loop_mset:
  "first + len \<le> length xs \<Longrightarrow> holeIndex < len \<Longrightarrow>
   adjust_heap_loop xs first holeIndex secondChild len = (ys, hole, child) \<Longrightarrow>
   length ys = length xs \<and> hole < len
   \<and> (\<forall>v. mset (ys[first + hole := v]) = mset (xs[first + holeIndex := v]))"
proof (induction xs first holeIndex secondChild len rule: adjust_heap_loop.induct)
  case (1 xs first holeIndex secondChild len)
  show ?case
  proof (cases "secondChild < (len - 1) div 2")
    case False
    then have "adjust_heap_loop xs first holeIndex secondChild len = (xs, holeIndex, secondChild)"
      by (subst adjust_heap_loop.simps) simp
    then show ?thesis using "1.prems" by simp
  next
    case True
    define right where "right = 2 * (secondChild + 1)"
    define c where "c = (if conf_greater (xs ! (first + right)) (xs ! (first + (right - 1)))
                         then right - 1 else right)"
    let ?xs = "xs[first + holeIndex := xs ! (first + c)]"
    have cl: "c < len" using True unfolding c_def right_def by auto
    have eq: "adjust_heap_loop xs first holeIndex secondChild len
              = adjust_heap_loop ?xs first c c len"
      using True by (subst adjust_heap_loop.simps) (simp add: Let_def c_def right_def)
    have len: "first + len \<le> length ?xs" using "1.prems"(1) by simp
    have res: "adjust_heap_loop ?xs first c c len = (ys, hole, child)"
      using "1.prems"(3) unfolding eq .
    have IH: "length ys = length ?xs \<and> hole < len
              \<and> (\<forall>v. mset (ys[first + hole := v]) = mset (?xs[first + c := v]))"
      using "1.IH" [OF True right_def c_def len cl res] .
    have "mset (?xs[first + c := v]) = mset (xs[first + holeIndex := v])" for v
      using hole_move [of "first + holeIndex" xs "first + c" v] "1.prems"(1,2) cl by simp
    then show ?thesis using IH by simp
  qed
qed

lemma adjust_heap_mset:
  assumes "first + len \<le> length xs" "holeIndex < len"
  shows "length (adjust_heap xs first holeIndex len val) = length xs
         \<and> mset (adjust_heap xs first holeIndex len val) = mset (xs[first + holeIndex := val])"
proof -
  obtain ys hole child where res: "adjust_heap_loop xs first holeIndex holeIndex len = (ys, hole, child)"
    by (cases "adjust_heap_loop xs first holeIndex holeIndex len") auto
  note inv = adjust_heap_loop_mset [OF assms res]
  show ?thesis
  proof (cases "even len \<and> 2 \<le> len \<and> child = (len - 2) div 2")
    case False
    then have eq: "adjust_heap xs first holeIndex len val = push_heap ys first hole holeIndex val"
      by (auto simp: adjust_heap_def res)
    have "first + hole < length ys" using inv assms(1) by simp
    from push_heap_mset [OF this, of holeIndex val] show ?thesis
      unfolding eq using inv by simp
  next
    case True
    define left where "left = 2 * (child + 1) - 1"
    have ll: "left < len" using True unfolding left_def by (auto elim!: evenE)
    let ?ys = "ys[first + hole := ys ! (first + left)]"
    have eq: "adjust_heap xs first holeIndex len val = push_heap ?ys first left holeIndex val"
      using True by (simp add: adjust_heap_def res Let_def left_def)
    have b: "first + left < length ?ys" "first + hole < length ys" "first + left < length ys"
      using inv assms(1) ll by simp_all
    have "mset (?ys[first + left := val]) = mset (ys[first + hole := val])"
      by (rule hole_move [OF b(2,3)])
    then show ?thesis
      unfolding eq using push_heap_mset [OF b(1), of holeIndex val] inv by simp
  qed
qed

lemma make_heap_loop_mset:
  "first + len \<le> length xs \<Longrightarrow> parent < len \<Longrightarrow>
   length (make_heap_loop xs first len parent) = length xs
   \<and> mset (make_heap_loop xs first len parent) = mset xs"
proof (induction xs first len parent rule: make_heap_loop.induct)
  case (1 xs first len parent)
  let ?ys = "adjust_heap xs first parent len (xs ! (first + parent))"
  have a: "length ?ys = length xs \<and> mset ?ys = mset xs"
    using adjust_heap_mset [OF "1.prems", of "xs ! (first + parent)"] by simp
  show ?case
  proof (cases "parent = 0")
    case True
    then show ?thesis using a by (subst (1 2) make_heap_loop.simps) (simp add: Let_def)
  next
    case False
    have "length (make_heap_loop ?ys first len (parent - 1)) = length ?ys
          \<and> mset (make_heap_loop ?ys first len (parent - 1)) = mset ?ys"
      using "1.IH" [OF refl False] "1.prems" a by simp
    then show ?thesis using a False by (subst (1 2) make_heap_loop.simps) (simp add: Let_def)
  qed
qed

lemma make_heap_mset:
  "first \<le> lst \<Longrightarrow> lst \<le> length xs \<Longrightarrow>
   length (make_heap xs first lst) = length xs \<and> mset (make_heap xs first lst) = mset xs"
  using make_heap_loop_mset [of first "lst - first" xs "(lst - first - 2) div 2"]
  by (auto simp: make_heap_def)

lemma pop_heap_mset:
  assumes "first < lst" "lst \<le> length xs" "result < length xs"
  shows "length (pop_heap xs first lst result) = length xs
         \<and> mset (pop_heap xs first lst result) = mset xs"
proof -
  let ?xs = "xs[result := xs ! first]"
  have a: "first + (lst - first) \<le> length ?xs" "0 < lst - first" using assms by simp_all
  have f: "first < length xs" using assms by simp
  have "mset (?xs[first := xs ! result]) = mset xs"
    using mset_swap [OF f assms(3)] by simp
  then show ?thesis
    using adjust_heap_mset [OF a, of "xs ! result"] by (simp add: pop_heap_def)
qed

lemma sort_heap_mset:
  "lst \<le> length xs \<Longrightarrow>
   length (sort_heap xs first lst) = length xs \<and> mset (sort_heap xs first lst) = mset xs"
proof (induction xs first lst rule: sort_heap.induct)
  case (1 xs first lst)
  show ?case
  proof (cases "1 < lst - first")
    case False
    then show ?thesis by (subst (1 2) sort_heap.simps) simp
  next
    case True
    let ?ys = "pop_heap xs first (lst - 1) (lst - 1)"
    have a: "length ?ys = length xs \<and> mset ?ys = mset xs"
      using True "1.prems" by (intro pop_heap_mset) auto
    have "length (sort_heap ?ys first (lst - 1)) = length ?ys
          \<and> mset (sort_heap ?ys first (lst - 1)) = mset ?ys"
      using "1.IH" [OF True] "1.prems" a by simp
    then show ?thesis using a True by (subst (1 2) sort_heap.simps) simp
  qed
qed

lemma heap_select_loop_mset:
  "first < middle \<Longrightarrow> middle \<le> length xs \<Longrightarrow> lst \<le> length xs \<Longrightarrow>
   length (heap_select_loop xs first middle lst i) = length xs
   \<and> mset (heap_select_loop xs first middle lst i) = mset xs"
proof (induction xs first middle lst i rule: heap_select_loop.induct)
  case (1 xs first middle lst i)
  show ?case
  proof (cases "i < lst")
    case False
    then show ?thesis by (subst (1 2) heap_select_loop.simps) simp
  next
    case True
    let ?ys = "if conf_greater (xs ! i) (xs ! first) then pop_heap xs first middle i else xs"
    have a: "length ?ys = length xs \<and> mset ?ys = mset xs"
      using pop_heap_mset [of first middle xs i] True "1.prems" by simp
    have "length (heap_select_loop ?ys first middle lst (i + 1)) = length ?ys
          \<and> mset (heap_select_loop ?ys first middle lst (i + 1)) = mset ?ys"
      using "1.IH" [OF True] "1.prems" a by simp
    then show ?thesis using a True by (subst (1 2) heap_select_loop.simps) simp
  qed
qed

lemma partial_sort_mset:
  assumes "first < middle" "middle \<le> lst" "lst \<le> length xs"
  shows "length (partial_sort xs first middle lst) = length xs
         \<and> mset (partial_sort xs first middle lst) = mset xs"
proof -
  have m: "length (make_heap xs first middle) = length xs \<and> mset (make_heap xs first middle) = mset xs"
    using assms by (intro make_heap_mset) auto
  have h: "length (heap_select xs first middle lst) = length xs
           \<and> mset (heap_select xs first middle lst) = mset xs"
    unfolding heap_select_def
    using heap_select_loop_mset [of first middle "make_heap xs first middle" lst middle] m assms
    by simp
  show ?thesis
    unfolding partial_sort_def
    using sort_heap_mset [of middle "heap_select xs first middle lst" first] h assms by simp
qed

lemma iter_swap_mset:
  "i < length xs \<Longrightarrow> j < length xs \<Longrightarrow>
   length (iter_swap xs i j) = length xs \<and> mset (iter_swap xs i j) = mset xs"
  using mset_swap [of j xs i] by (simp add: iter_swap_def)

lemma move_median_to_first_mset:
  assumes "result < length xs" "a < length xs" "b < length xs" "c < length xs"
  shows "length (move_median_to_first xs result a b c) = length xs
         \<and> mset (move_median_to_first xs result a b c) = mset xs"
  using assms iter_swap_mset [of result xs a] iter_swap_mset [of result xs b]
    iter_swap_mset [of result xs c]
  by (simp add: move_median_to_first_def)

lemma partition_first_le:
  "first \<le> length xs \<Longrightarrow> partition_first xs pivot first \<le> length xs"
proof (induction xs pivot first rule: partition_first.induct)
  case (1 xs pivot first)
  then show ?case by (subst partition_first.simps) auto
qed

lemma partition_last_le: "partition_last xs pivot lst \<le> lst"
proof (induction xs pivot lst rule: partition_last.induct)
  case (1 xs pivot lst)
  then show ?case by (subst partition_last.simps) auto
qed

lemma unguarded_partition_mset:
  "first \<le> length xs \<Longrightarrow> lst \<le> length xs \<Longrightarrow>
   unguarded_partition xs first lst pivot = (ys, cut_at) \<Longrightarrow>
   length ys = length xs \<and> mset ys = mset xs \<and> cut_at \<le> length xs"
proof (induction xs first lst pivot rule: unguarded_partition.induct)
  case (1 xs first lst pivot)
  define first1 where "first1 = partition_first xs pivot first"
  define lst1 where "lst1 = partition_last xs pivot (lst - 1)"
  have f1: "first1 \<le> length xs" unfolding first1_def using "1.prems"(1) by (rule partition_first_le)
  have l1: "lst1 \<le> lst - 1" unfolding lst1_def by (rule partition_last_le)
  show ?case
  proof (cases "first1 < lst1")
    case False
    then have "unguarded_partition xs first lst pivot = (xs, first1)"
      by (subst unguarded_partition.simps) (simp add: Let_def first1_def lst1_def)
    then show ?thesis using "1.prems"(3) f1 by simp
  next
    case True
    let ?xs = "iter_swap xs first1 lst1"
    have b: "first1 < length xs" "lst1 < length xs" using True l1 "1.prems"(2) by auto
    have sw: "length ?xs = length xs \<and> mset ?xs = mset xs" using b by (rule iter_swap_mset)
    have eq: "unguarded_partition xs first lst pivot = unguarded_partition ?xs (first1 + 1) lst1 pivot"
      using True by (subst unguarded_partition.simps) (simp add: Let_def first1_def lst1_def)
    have "length ys = length ?xs \<and> mset ys = mset ?xs \<and> cut_at \<le> length ?xs"
      using "1.IH" [OF first1_def lst1_def] True b sw "1.prems"(3) unfolding eq by simp
    then show ?thesis using sw by simp
  qed
qed

lemma unguarded_partition_pivot_mset:
  assumes "16 < lst - first" "lst \<le> length xs"
    and "unguarded_partition_pivot xs first lst = (ys, cut_at)"
  shows "length ys = length xs \<and> mset ys = mset xs \<and> cut_at \<le> length xs"
proof -
  let ?mid = "first + (lst - first) div 2"
  let ?xs = "move_median_to_first xs first (first + 1) ?mid (lst - 1)"
  have m: "length ?xs = length xs \<and> mset ?xs = mset xs"
    using assms(1,2) by (intro move_median_to_first_mset) auto
  have "unguarded_partition ?xs (first + 1) lst first = (ys, cut_at)"
    using assms(3) by (simp add: unguarded_partition_pivot_def Let_def)
  from unguarded_partition_mset [OF _ _ this] show ?thesis using m assms(1,2) by simp
qed

lemma introsort_loop_mset:
  "lst \<le> length xs \<Longrightarrow>
   length (introsort_loop xs first lst depth_limit) = length xs
   \<and> mset (introsort_loop xs first lst depth_limit) = mset xs"
proof (induction xs first lst depth_limit rule: introsort_loop.induct)
  case (1 xs first lst depth_limit)
  show ?case
  proof (cases "16 < lst - first")
    case False
    then show ?thesis by (subst (1 2) introsort_loop.simps) simp
  next
    case big: True
    show ?thesis
    proof (cases "depth_limit = 0")
      case True
      have "introsort_loop xs first lst depth_limit = partial_sort xs first lst lst"
        using big True by (subst introsort_loop.simps) simp
      then show ?thesis using partial_sort_mset [of first lst lst xs] big "1.prems" by simp
    next
      case False
      obtain ys cut_at where p: "unguarded_partition_pivot xs first lst = (ys, cut_at)"
        by (cases "unguarded_partition_pivot xs first lst") auto
      note pm = unguarded_partition_pivot_mset [OF big "1.prems" p]
      let ?zs = "introsort_loop ys cut_at lst (depth_limit - 1)"
      have eq: "introsort_loop xs first lst depth_limit
                = introsort_loop ?zs first cut_at (depth_limit - 1)"
        using big False by (subst introsort_loop.simps) (simp add: p)
      have z: "length ?zs = length ys \<and> mset ?zs = mset ys"
        using "1.IH"(1) [OF big False p [symmetric]] pm "1.prems" by simp
      have "length (introsort_loop ?zs first cut_at (depth_limit - 1)) = length ?zs
            \<and> mset (introsort_loop ?zs first cut_at (depth_limit - 1)) = mset ?zs"
        using "1.IH"(2) [OF big False p [symmetric]] pm z by simp
      then show ?thesis unfolding eq using z pm by simp
    qed
  qed
qed



lemma stable_sort_desc_sorted:
  "sorted_wrt (\<lambda>a b. \<not> conf_greater b a) (stable_sort_desc xs)"
proof -
  have "sorted (map (\<lambda>d. - det_confidence d) (stable_sort_desc xs))"
    unfolding stable_sort_desc_def by (rule sorted_sort_key)
  then show ?thesis
    by (simp add: sorted_map conf_greater_def not_less)
qed

lemma stable_sort_desc_snoc:
  "stable_sort_desc (ys @ [v])
   = filter (\<lambda>y. \<not> conf_greater v y) (stable_sort_desc ys) @ v
       # filter (conf_greater v) (stable_sort_desc ys)"
proof -
  let ?f = "\<lambda>d. - det_confidence d"
  let ?S = "sort_key ?f ys"
  let ?R = "filter (\<lambda>y. \<not> conf_greater v y) ?S @ v # filter (conf_greater v) ?S"
  have sS: "sorted (map ?f ?S)" by (rule sorted_sort_key)
  have m: "mset ?R = mset (ys @ [v])"
  proof -
    have "mset (filter (\<lambda>y. \<not> conf_greater v y) ?S) + mset (filter (conf_greater v) ?S) = mset ?S"
      by (simp add: union_commute)
    then show ?thesis by simp
  qed
  have srt: "sorted (map ?f ?R)"
    using sS by (auto simp: sorted_append sorted_map sorted_wrt_filter conf_greater_def
        intro: sorted_wrt_filter)
  have st: "filter (\<lambda>x. ?f k = ?f x) ?R = filter (\<lambda>x. ?f k = ?f x) (ys @ [v])" for k
  proof -
    have S: "filter (\<lambda>x. ?f k = ?f x) ?S = filter (\<lambda>x. ?f k = ?f x) ys"
      using sort_key_stable [of ?f "?f k" ys] by (simp add: eq_commute)
    consider "det_confidence k = det_confidence v" | "det_confidence k > det_confidence v"
      | "det_confidence k < det_confidence v" by linarith
    then show ?thesis
    proof cases
      case 1
      have "filter (\<lambda>x. ?f k = ?f x) (filter (\<lambda>y. \<not> conf_greater v y) ?S)
            = filter (\<lambda>x. ?f k = ?f x) ?S"
        using 1 by (auto simp: conf_greater_def intro!: filter_cong)
      moreover have "filter (\<lambda>x. ?f k = ?f x) (filter (conf_greater v) ?S) = []"
        using 1 by (auto simp: conf_greater_def filter_empty_conv)
      ultimately show ?thesis using 1 S by simp
    next
      case 2
      have "filter (\<lambda>x. ?f k = ?f x) (filter (\<lambda>y. \<not> conf_greater v y) ?S)
            = filter (\<lambda>x. ?f k = ?f x) ?S"
        using 2 by (auto simp: conf_greater_def intro!: filter_cong)
      moreover have "filter (\<lambda>x. ?f k = ?f x) (filter (conf_greater v) ?S) = []"
        using 2 by (auto simp: conf_greater_def filter_empty_conv)
      ultimately show ?thesis using 2 S by simp
    next
      case 3
      have "filter (\<lambda>x. ?f k = ?f x) (filter (\<lambda>y. \<not> conf_greater v y) ?S) = []"
        using 3 by (auto simp: conf_greater_def filter_empty_conv)
      moreover have "filter (\<lambda>x. ?f k = ?f x) (filter (conf_greater v) ?S)
            = filter (\<lambda>x. ?f k = ?f x) ?S"
        using 3 by (auto simp: conf_greater_def intro!: filter_cong)
      ultimately show ?thesis using 3 S by simp
    qed
  qed
  have "sort_key ?f (ys @ [v]) = ?R"
  proof (rule properties_for_sort_key)
    show "mset ?R = mset (ys @ [v])" by (rule m)
    show "filter (\<lambda>x. ?f k = ?f x) ?R = filter (\<lambda>x. ?f k = ?f x) (ys @ [v])" for k
      by (rule st)
    show "sorted (map ?f ?R)" by (rule srt)
  qed
  then show ?thesis by (simp add: stable_sort_desc_def)
qed

lemma unguarded_linear_insert_loop_sorted:
  "sorted_wrt (\<lambda>a b. \<not> conf_greater b a) ys \<Longrightarrow>
   unguarded_linear_insert_loop (ys @ h # rest) v (length ys)
   = filter (\<lambda>y. \<not> conf_greater v y) ys @ v # filter (conf_greater v) ys @ rest"
proof (induction ys arbitrary: h rest rule: rev_induct)
  case Nil
  show ?case by (subst unguarded_linear_insert_loop.simps) simp
next
  case (snoc y ys)
  have s: "sorted_wrt (\<lambda>a b. \<not> conf_greater b a) ys" "\<forall>z\<in>set ys. \<not> conf_greater y z"
    using snoc.prems by (auto simp: sorted_wrt_append)
  have nth: "((ys @ [y]) @ h # rest) ! (length (ys @ [y]) - 1) = y"
    by (simp add: nth_append)
  show ?case
  proof (cases "conf_greater v y")
    case True
    have upd: "((ys @ [y]) @ h # rest)[length (ys @ [y]) := y] = ys @ y # (y # rest)"
      by (simp add: list_update_append)
    have "unguarded_linear_insert_loop ((ys @ [y]) @ h # rest) v (length (ys @ [y]))
          = unguarded_linear_insert_loop (ys @ y # (y # rest)) v (length ys)"
      using True nth upd by (subst unguarded_linear_insert_loop.simps) simp
    then show ?thesis using snoc.IH [OF s(1), of y "y # rest"] True by simp
  next
    case False
    have upd: "((ys @ [y]) @ h # rest)[length (ys @ [y]) := v] = ys @ y # v # rest"
      by (simp add: list_update_append)
    have all: "\<forall>z\<in>set ys. \<not> conf_greater v z"
      using s(2) False by (auto simp: conf_greater_def)
    have "unguarded_linear_insert_loop ((ys @ [y]) @ h # rest) v (length (ys @ [y]))
          = ys @ y # v # rest"
      using False nth upd by (subst unguarded_linear_insert_loop.simps) simp
    moreover have "filter (\<lambda>y. \<not> conf_greater v y) ys = ys" "filter (conf_greater v) ys = []"
      using all by (auto simp: filter_empty_conv)
    ultimately show ?thesis using False by simp
  qed
qed

lemma unguarded_linear_insert_step:
  assumes "i < length xs" "take i xs = stable_sort_desc (take i orig)" "drop i xs = drop i orig"
    "length orig = length xs"
  shows "take (Suc i) (unguarded_linear_insert xs i) = stable_sort_desc (take (Suc i) orig)
         \<and> drop (Suc i) (unguarded_linear_insert xs i) = drop (Suc i) orig
         \<and> length (unguarded_linear_insert xs i) = length xs"
proof -
  let ?S = "stable_sort_desc (take i orig)"
  let ?v = "xs ! i"
  have lS: "length ?S = i" using assms(1,4) by (simp add: stable_sort_desc_def)
  have xs: "xs = ?S @ ?v # drop (Suc i) xs"
    using id_take_nth_drop [OF assms(1)] assms(2) by simp
  have v: "?v = orig ! i"
    using assms(1,3,4) by (metis hd_drop_conv_nth)
  have "unguarded_linear_insert xs i
        = unguarded_linear_insert_loop (?S @ ?v # drop (Suc i) xs) ?v (length ?S)"
    unfolding unguarded_linear_insert_def lS using xs by simp
  also have "\<dots> = filter (\<lambda>y. \<not> conf_greater ?v y) ?S @ ?v # filter (conf_greater ?v) ?S
                     @ drop (Suc i) xs"
    by (rule unguarded_linear_insert_loop_sorted) (rule stable_sort_desc_sorted)
  also have "\<dots> = stable_sort_desc (take i orig @ [?v]) @ drop (Suc i) xs"
    by (simp add: stable_sort_desc_snoc)
  finally have eq: "unguarded_linear_insert xs i
                    = stable_sort_desc (take (Suc i) orig) @ drop (Suc i) xs"
    using v assms(1,4) by (simp add: take_Suc_conv_app_nth)
  have l: "length (stable_sort_desc (take (Suc i) orig)) = Suc i"
    using assms(1,4) by (simp add: stable_sort_desc_def)
  have d: "drop (Suc i) xs = drop (Suc i) orig"
    using assms(3) by (metis drop_drop plus_1_eq_Suc)
  show ?thesis unfolding eq using l d assms(1,4) by simp
qed

lemma move_to_front_step:
  assumes "i < length xs" "0 < i" "take i xs = stable_sort_desc (take i orig)"
    "drop i xs = drop i orig" "length orig = length xs" "conf_greater (xs ! i) (xs ! 0)"
  shows "take (Suc i) ((move_backward xs 0 i)[0 := xs ! i]) = stable_sort_desc (take (Suc i) orig)
         \<and> drop (Suc i) ((move_backward xs 0 i)[0 := xs ! i]) = drop (Suc i) orig
         \<and> length ((move_backward xs 0 i)[0 := xs ! i]) = length xs"
proof -
  let ?S = "stable_sort_desc (take i orig)"
  let ?v = "xs ! i"
  have lS: "length ?S = i" using assms(1,5) by (simp add: stable_sort_desc_def)
  have v: "?v = orig ! i"
    using assms(1,4,5) by (metis hd_drop_conv_nth)
  have S0: "?S ! 0 = xs ! 0" using assms(2,3) by (metis nth_take)
  have "sorted_wrt (\<lambda>a b. \<not> conf_greater b a) ?S" by (rule stable_sort_desc_sorted)
  then have "\<forall>z\<in>set ?S. \<not> conf_greater z (?S ! 0)"
    using lS assms(2) by (cases ?S) (auto simp: conf_greater_def)
  then have all: "\<forall>z\<in>set ?S. conf_greater ?v z"
    using assms(6) S0 by (auto simp: conf_greater_def)
  have f: "filter (\<lambda>y. \<not> conf_greater ?v y) ?S = []" "filter (conf_greater ?v) ?S = ?S"
    using all by (auto simp: filter_empty_conv)
  have "(move_backward xs 0 i)[0 := ?v] = ?v # take i xs @ drop (Suc i) xs"
    using assms(1) by (cases xs) (simp_all add: move_backward_def)
  also have "\<dots> = stable_sort_desc (take i orig @ [?v]) @ drop (Suc i) xs"
    using assms(3) f by (simp add: stable_sort_desc_snoc)
  finally have eq: "(move_backward xs 0 i)[0 := ?v]
                    = stable_sort_desc (take (Suc i) orig) @ drop (Suc i) xs"
    using v assms(1,5) by (simp add: take_Suc_conv_app_nth)
  have l: "length (stable_sort_desc (take (Suc i) orig)) = Suc i"
    using assms(1,5) by (simp add: stable_sort_desc_def)
  have d: "drop (Suc i) xs = drop (Suc i) orig"
    using assms(4) by (metis drop_drop plus_1_eq_Suc)
  show ?thesis unfolding eq using l d assms(1,5) by simp
qed

lemma insertion_sort_loop_stable:
  "0 < i \<Longrightarrow> i \<le> n \<Longrightarrow> n \<le> length xs \<Longrightarrow> length orig = length xs \<Longrightarrow>
   take i xs = stable_sort_desc (take i orig) \<Longrightarrow> drop i xs = drop i orig \<Longrightarrow>
   insertion_sort_loop xs 0 n i = stable_sort_desc (take n orig) @ drop n orig"
proof (induction xs "0::nat" n i rule: insertion_sort_loop.induct)
  case (1 xs n i)
  show ?case
  proof (cases "i < n")
    case False
    then have "i = n" using "1.prems" by simp
    moreover have "insertion_sort_loop xs 0 n i = xs"
      using False by (subst insertion_sort_loop.simps) simp
    ultimately show ?thesis using "1.prems"(5,6) by (metis append_take_drop_id)
  next
    case True
    let ?ys = "if conf_greater (xs ! i) (xs ! 0)
               then (move_backward xs 0 i)[0 := xs ! i] else unguarded_linear_insert xs i"
    have il: "i < length xs" using True "1.prems" by simp
    have st: "take (Suc i) ?ys = stable_sort_desc (take (Suc i) orig)
              \<and> drop (Suc i) ?ys = drop (Suc i) orig \<and> length ?ys = length xs"
      using move_to_front_step [OF il "1.prems"(1,5,6,4)]
        unguarded_linear_insert_step [OF il "1.prems"(5,6,4)]
      by simp
    have eq: "insertion_sort_loop xs 0 n i = insertion_sort_loop ?ys 0 n (i + 1)"
      using True by (subst insertion_sort_loop.simps) simp
    show ?thesis
      unfolding eq using "1.hyps" [OF True] True "1.prems" st by simp
  qed
qed

lemma insertion_sort_stable:
  assumes "n \<le> length xs"
  shows "insertion_sort xs 0 n = stable_sort_desc (take n xs) @ drop n xs"
proof (cases "n = 0")
  case True
  then show ?thesis by (simp add: insertion_sort_def stable_sort_desc_def)
next
  case False
  have t1: "take 1 xs = stable_sort_desc (take 1 xs)"
    using False assms by (cases xs) (simp_all add: stable_sort_desc_def)
  have "insertion_sort_loop xs 0 n 1 = stable_sort_desc (take n xs) @ drop n xs"
    using False assms t1 by (intro insertion_sort_loop_stable) auto
  then show ?thesis using False by (simp add: insertion_sort_def)
qed

lemma unguarded_insertion_sort_stable:
  "i \<le> n \<Longrightarrow> n \<le> length xs \<Longrightarrow> length orig = length xs \<Longrightarrow>
   take i xs = stable_sort_desc (take i orig) \<Longrightarrow> drop i xs = drop i orig \<Longrightarrow>
   unguarded_insertion_sort xs i n = stable_sort_desc (take n orig) @ drop n orig"
proof (induction xs i n rule: unguarded_insertion_sort.induct)
  case (1 xs i n)
  show ?case
  proof (cases "i < n")
    case False
    then have "i = n" using "1.prems" by simp
    moreover have "unguarded_insertion_sort xs i n = xs"
      using False by (subst unguarded_insertion_sort.simps) simp
    ultimately show ?thesis using "1.prems"(4,5) by (metis append_take_drop_id)
  next
    case True
    let ?ys = "unguarded_linear_insert xs i"
    have il: "i < length xs" using True "1.prems" by simp
    note st = unguarded_linear_insert_step [OF il "1.prems"(4,5,3)]
    have eq: "unguarded_insertion_sort xs i n = unguarded_insertion_sort ?ys (i + 1) n"
      using True by (subst unguarded_insertion_sort.simps) simp
    show ?thesis
      unfolding eq using "1.IH" [OF True] True "1.prems" st by simp
  qed
qed

lemma final_insertion_sort_stable:
  "final_insertion_sort xs 0 (length xs) = stable_sort_desc xs"
proof (cases "16 < length xs")
  case False
  then show ?thesis
    using insertion_sort_stable [of "length xs" xs] by (simp add: final_insertion_sort_def)
next
  case True
  let ?ys = "insertion_sort xs 0 16"
  have ys: "?ys = stable_sort_desc (take 16 xs) @ drop 16 xs"
    using True by (intro insertion_sort_stable) simp
  have l: "length (stable_sort_desc (take 16 xs)) = 16"
    using True by (simp add: stable_sort_desc_def)
  have "unguarded_insertion_sort ?ys 16 (length xs)
        = stable_sort_desc (take (length xs) xs) @ drop (length xs) xs"
    using True l by (intro unguarded_insertion_sort_stable) (simp_all add: ys)
  then show ?thesis using True by (simp add: final_insertion_sort_def)
qed

lemma std_sort_stable_introsort:
  "std_sort xs = stable_sort_desc (introsort_loop xs 0 (length xs) (lg (length xs) * 2))"
proof (cases "xs = []")
  case True
  then show ?thesis
    by (subst introsort_loop.simps) (simp add: std_sort_def stable_sort_desc_def)
next
  case False
  let ?ys = "introsort_loop xs 0 (length xs) (lg (length xs) * 2)"
  have "length ?ys = length xs" using introsort_loop_mset [of "length xs" xs] by simp
  then show ?thesis
    using False final_insertion_sort_stable [of ?ys] by (simp add: std_sort_def)
qed

lemma std_sort_mset: "mset (std_sort xs) = mset xs"
  using introsort_loop_mset [of "length xs" xs 0 "lg (length xs) * 2"]
  by (simp add: std_sort_stable_introsort stable_sort_desc_def)

lemma std_sort_sorted: "sorted_wrt (\<lambda>a b. \<not> conf_greater b a) (std_sort xs)"
  unfolding std_sort_stable_introsort by (rule stable_sort_desc_sorted)

lemma std_sort_small: "length xs \<le> 16 \<Longrightarrow> std_sort xs = stable_sort_desc xs"
  unfolding std_sort_stable_introsort by (subst introsort_loop.simps) simp


lemma std_sort_meets_contract: "std_sort_contract std_sort"
  by (simp add: std_sort_contract_def std_sort_mset std_sort_sorted)

lemma stable_sort_desc_contract: "std_sort_contract stable_sort_desc"
  by (simp add: std_sort_contract_def stable_sort_desc_sorted) (simp add: stable_sort_desc_def)

lemma stable_sort_desc_sorted_id:
  assumes "sorted_wrt (\<lambda>a b. \<not> conf_greater b a) xs"
  shows "stable_sort_desc xs = xs"
proof -
  have "sorted (map (\<lambda>d. - det_confidence d) xs)"
    using assms by (simp add: sorted_map conf_greater_def not_less)
  then show ?thesis
    unfolding stable_sort_desc_def by (rule sort_key_id_if_sorted)
qed

subsection \<open>Survivors of the suppression\<close>

lemma greedy_nms_subset: "set (greedy_nms t ds) \<subseteq> set ds"
proof (induction t ds rule: greedy_nms.induct)
  case (1 t)
  show ?case by simp
next
  case (2 t d ds)
  then show ?case by auto
qed

lemma greedy_nms_mset: "mset (greedy_nms t ds) \<subseteq># mset ds"
proof (induction t ds rule: greedy_nms.induct)
  case (1 t)
  show ?case by simp
next
  case (2 t d ds)
  have "mset (filter (\<lambda>e. \<not> overlaps_above t d e) ds) \<subseteq># mset ds"
    by (simp add: multiset_filter_subset)
  with 2 have "mset (greedy_nms t (filter (\<lambda>e. \<not> overlaps_above t d e) ds)) \<subseteq># mset ds"
    by (rule subset_mset.order_trans)
  then show ?case by simp
qed

lemma greedy_nms_sorted_wrt:
  "sorted_wrt P ds \<Longrightarrow> sorted_wrt P (greedy_nms t ds)"
proof (induction t ds rule: greedy_nms.induct)
  case (1 t)
  show ?case by simp
next
  case (2 t d ds)
  let ?rest = "filter (\<lambda>e. \<not> overlaps_above t d e) ds"
  from "2.prems" have "sorted_wrt P ?rest" by (simp add: sorted_wrt_filter)
  then have "sorted_wrt P (greedy_nms t ?rest)" by (rule "2.IH")
  moreover have "\<forall>e\<in>set (greedy_nms t ?rest). P d e"
    using greedy_nms_subset [of t ?rest] "2.prems" by auto
  ultimately show ?case by simp
qed

lemma greedy_nms_pairwise:
  "sorted_wrt (\<lambda>a b. \<not> overlaps_above t a b) (greedy_nms t ds)"
proof (induction t ds rule: greedy_nms.induct)
  case (1 t)
  show ?case by simp
next
  case (2 t d ds)
  let ?rest = "filter (\<lambda>e. \<not> overlaps_above t d e) ds"
  have a: "\<forall>e\<in>set (greedy_nms t ?rest). \<not> overlaps_above t d e"
    using greedy_nms_subset [of t ?rest] by auto
  have b: "sorted_wrt (\<lambda>a b. \<not> overlaps_above t a b) (greedy_nms t ?rest)"
    by (rule 2)
  show ?case
    unfolding greedy_nms.simps sorted_wrt.simps using a b by blast
qed

lemma greedy_nms_dominated:
  assumes "sorted_wrt R ds" "e \<in> set ds"
  shows "e \<in> set (greedy_nms t ds)
         \<or> (\<exists>k\<in>set (greedy_nms t ds). R k e \<and> overlaps_above t k e)"
  using assms
proof (induction t ds rule: greedy_nms.induct)
  case (1 t)
  then show ?case by simp
next
  case (2 t d ds)
  let ?rest = "filter (\<lambda>e. \<not> overlaps_above t d e) ds"
  show ?case
  proof (cases "e = d")
    case True
    then show ?thesis by simp
  next
    case False
    then have e: "e \<in> set ds" using "2.prems" by simp
    show ?thesis
    proof (cases "overlaps_above t d e")
      case True
      moreover have "R d e" using "2.prems"(1) e by simp
      ultimately show ?thesis by auto
    next
      case False
      then have "e \<in> set ?rest" using e by simp
      moreover have "sorted_wrt R ?rest" using "2.prems"(1) by (simp add: sorted_wrt_filter)
      ultimately show ?thesis using "2.IH" by auto
    qed
  qed
qed

lemma greedy_nms_fixed:
  "sorted_wrt (\<lambda>a b. \<not> overlaps_above t a b) ds \<Longrightarrow> greedy_nms t ds = ds"
proof (induction t ds rule: greedy_nms.induct)
  case (1 t)
  show ?case by simp
next
  case (2 t d ds)
  then have keep: "filter (\<lambda>e. \<not> overlaps_above t d e) ds = ds" by simp
  with 2 show ?case by simp
qed

lemma sorted_wrt_sym_mset:
  assumes "\<And>a b. P a b \<Longrightarrow> P b a" "sorted_wrt P xs" "mset ys = mset xs"
  shows "sorted_wrt P ys"
  using assms(2,3)
proof (induction ys arbitrary: xs)
  case Nil
  show ?case by simp
next
  case (Cons y ys)
  have "y \<in> set xs" using Cons.prems(2) by (metis list.set_intros(1) mset_eq_setD)
  then obtain as bs where xs: "xs = as @ y # bs" by (auto dest: split_list)
  have m: "mset ys = mset (as @ bs)" using Cons.prems(2) unfolding xs by simp
  have s: "sorted_wrt P (as @ bs)" using Cons.prems(1) unfolding xs by (auto simp: sorted_wrt_append)
  have "sorted_wrt P ys" using Cons.IH [OF s m] .
  moreover have "P y z" if "z \<in> set ys" for z
  proof -
    have "z \<in> set as \<union> set bs" using that m by (metis mset_eq_setD set_append)
    then show ?thesis
      using Cons.prems(1) assms(1) unfolding xs by (auto simp: sorted_wrt_append)
  qed
  ultimately show ?case by simp
qed

lemma overlaps_above_sym: "overlaps_above t a b \<Longrightarrow> overlaps_above t b a"
  by (simp add: overlaps_above_def compute_iou_sym)

lemma not_float_gt_le: "\<not> float_gt v t \<Longrightarrow> v = NaN \<or> float_le v t"
  by (cases v) simp_all

lemma apply_nms_again:
  assumes "std_sort_contract srt"
  shows "apply_nms srt (apply_nms srt ds t) t = srt (apply_nms srt ds t)"
proof -
  let ?keep = "\<lambda>a b. \<not> overlaps_above t a b"
  have sym: "?keep a b \<Longrightarrow> ?keep b a" for a b
    using overlaps_above_sym [of t b a] by blast
  have pw: "sorted_wrt ?keep (apply_nms srt ds t)"
    unfolding apply_nms_greedy by (rule greedy_nms_pairwise)
  have "mset (srt (apply_nms srt ds t)) = mset (apply_nms srt ds t)"
    using assms by (simp add: std_sort_contract_def)
  then have "sorted_wrt ?keep (srt (apply_nms srt ds t))"
    using sym pw by (rule sorted_wrt_sym_mset [rotated 2])
  then show ?thesis
    unfolding apply_nms_greedy [of srt "apply_nms srt ds t"] by (rule greedy_nms_fixed)
qed

text \<open>The values that the examples need.\<close>

lemma NMS_THRESHOLD_value: "NMS_THRESHOLD = 15099494 / 33554432"
  by (simp add: NMS_THRESHOLD_def f32_eval Let_def)

lemma f32_odd:
  "f32 5 = Finite 5" "f32 7 = Finite 7" "f32 9 = Finite 9" "f32 11 = Finite 11"
  "f32 13 = Finite 13" "f32 15 = Finite 15" "f32 17 = Finite 17" "f32 19 = Finite 19"
  "f32 21 = Finite 21" "f32 23 = Finite 23" "f32 25 = Finite 25" "f32 27 = Finite 27"
  "f32 29 = Finite 29" "f32 31 = Finite 31" "f32 33 = Finite 33"
  by (simp_all add: f32_eval Let_def)

lemma f32_three_fifths: "f32 (3 / 5) = Finite (5033165 / 8388608)"
  by (simp add: f32_eval Let_def)

lemmas sort_eval =
  std_sort_def final_insertion_sort_def insertion_sort_def insertion_sort_loop.simps
  unguarded_insertion_sort.simps unguarded_linear_insert_def unguarded_linear_insert_loop.simps
  move_backward_def introsort_loop.simps unguarded_partition_pivot_def
  unguarded_partition.simps partition_first.simps partition_last.simps
  move_median_to_first_def iter_swap_def lg.simps conf_greater_def Let_def

lemmas overlap_eval =
  overlaps_above_def iou_eval NMS_THRESHOLD_value f32_small f32_odd f32_three_fifths

lemma std_sort_spread_boxes:
  "std_sort spread_boxes
   = map square_at [16, 32, 30, 28, 26, 24, 22, 20, 18, 0, 14, 12, 10, 8, 6, 4, 2]"
  by (simp add: spread_boxes_def square_at_def sort_eval)

lemma std_sort_spread_boxes_again:
  "std_sort (map square_at [16, 32, 30, 28, 26, 24, 22, 20, 18, 0, 14, 12, 10, 8, 6, 4, 2])
   = map square_at [18, 2, 4, 6, 8, 10, 12, 14, 0, 16, 20, 22, 24, 26, 28, 30, 32]"
  by (simp add: square_at_def sort_eval)

lemma std_sort_tie_boxes:
  "std_sort tie_boxes
   = map square_at [0.25, 32, 30, 28, 26, 24, 22, 20, 18, 0, 14, 12, 10, 8, 6, 4, 2]"
  by (simp add: tie_boxes_def square_at_def sort_eval)

lemma greedy_nms_spread_boxes:
  "greedy_nms NMS_THRESHOLD
     (map square_at [16, 32, 30, 28, 26, 24, 22, 20, 18, 0, 14, 12, 10, 8, 6, 4, 2])
   = map square_at [16, 32, 30, 28, 26, 24, 22, 20, 18, 0, 14, 12, 10, 8, 6, 4, 2]"
  "greedy_nms NMS_THRESHOLD
     (map square_at [18, 2, 4, 6, 8, 10, 12, 14, 0, 16, 20, 22, 24, 26, 28, 30, 32])
   = map square_at [18, 2, 4, 6, 8, 10, 12, 14, 0, 16, 20, 22, 24, 26, 28, 30, 32]"
  by (simp_all add: square_at_def overlap_eval)

lemma greedy_nms_tie_boxes:
  "greedy_nms NMS_THRESHOLD
     (map square_at [0.25, 32, 30, 28, 26, 24, 22, 20, 18, 0, 14, 12, 10, 8, 6, 4, 2])
   = map square_at [0.25, 32, 30, 28, 26, 24, 22, 20, 18, 14, 12, 10, 8, 6, 4, 2]"
  "greedy_nms NMS_THRESHOLD tie_boxes
   = map square_at [0, 2, 4, 6, 8, 10, 12, 14, 18, 20, 22, 24, 26, 28, 30, 32]"
  by (simp_all add: tie_boxes_def square_at_def overlap_eval)

text \<open>
  C4, amended. For every list of detections and every threshold, the survivors of
  \<^verbatim>\<open>apply_nms\<close> are detections of the input, and no two of them have a value of
  \<^verbatim>\<open>compute_iou\<close> above the threshold, in either order of the two: the value is at most
  the threshold, or not a number. Applying \<^verbatim>\<open>apply_nms\<close> to its own output suppresses
  nothing more: the result is the output sorted again by \<^verbatim>\<open>std::sort\<close>, the same
  detections in an order that may differ among equal confidences. When the output has at
  most 16 detections, the result is the output itself.
\<close>

theorem apply_nms_survivors:
  "sorted_wrt (\<lambda>a b. \<not> float_gt (compute_iou a b) t \<and> \<not> float_gt (compute_iou b a) t
                       \<and> (compute_iou a b = NaN \<or> float_le (compute_iou a b) t))
     (apply_nms std_sort ds t)
   \<and> mset (apply_nms std_sort ds t) \<subseteq># mset ds
   \<and> apply_nms std_sort (apply_nms std_sort ds t) t = std_sort (apply_nms std_sort ds t)
   \<and> mset (apply_nms std_sort (apply_nms std_sort ds t) t) = mset (apply_nms std_sort ds t)
   \<and> (length (apply_nms std_sort ds t) \<le> 16
        \<longrightarrow> apply_nms std_sort (apply_nms std_sort ds t) t = apply_nms std_sort ds t)"
proof -
  let ?out = "apply_nms std_sort ds t"
  have pw: "sorted_wrt (\<lambda>a b. \<not> overlaps_above t a b) ?out"
    unfolding apply_nms_greedy by (rule greedy_nms_pairwise)
  have c1: "sorted_wrt (\<lambda>a b. \<not> float_gt (compute_iou a b) t \<and> \<not> float_gt (compute_iou b a) t
                       \<and> (compute_iou a b = NaN \<or> float_le (compute_iou a b) t)) ?out"
    using pw
    by (rule sorted_wrt_mono_rel [rotated])
      (use not_float_gt_le compute_iou_sym in \<open>auto simp: overlaps_above_def\<close>)
  have c2: "mset ?out \<subseteq># mset ds"
    using greedy_nms_mset [of t "std_sort ds"] by (simp add: apply_nms_greedy std_sort_mset)
  have c3: "apply_nms std_sort ?out t = std_sort ?out"
    by (rule apply_nms_again [OF std_sort_meets_contract])
  have c4: "mset (apply_nms std_sort ?out t) = mset ?out"
    unfolding c3 by (rule std_sort_mset)
  have "sorted_wrt (\<lambda>a b. \<not> conf_greater b a) ?out"
    unfolding apply_nms_greedy using std_sort_sorted by (rule greedy_nms_sorted_wrt)
  then have "stable_sort_desc ?out = ?out" by (rule stable_sort_desc_sorted_id)
  then have c5: "apply_nms std_sort ?out t = ?out" if "length ?out \<le> 16"
    unfolding c3 using std_sort_small [OF that] by simp
  show ?thesis using c1 c2 c3 c4 c5 by blast
qed

theorem apply_nms_survivors_witness:
  "apply_nms std_sort [near_box, far_box, unit_box] NMS_THRESHOLD = [far_box, unit_box]
   \<and> apply_nms std_sort [far_box, unit_box] NMS_THRESHOLD = [far_box, unit_box]"
proof -
  have s: "std_sort [near_box, far_box, unit_box] = [far_box, unit_box, near_box]"
    by (simp add: std_sort_small) (simp add: stable_sort_desc_def example_boxes)
  have a: "apply_nms std_sort [near_box, far_box, unit_box] NMS_THRESHOLD = [far_box, unit_box]"
    unfolding apply_nms_greedy s by (simp add: example_boxes overlap_eval)
  have "length (apply_nms std_sort [near_box, far_box, unit_box] NMS_THRESHOLD) \<le> 16"
    unfolding a by simp
  then have "apply_nms std_sort (apply_nms std_sort [near_box, far_box, unit_box] NMS_THRESHOLD)
               NMS_THRESHOLD
             = apply_nms std_sort [near_box, far_box, unit_box] NMS_THRESHOLD"
    using apply_nms_survivors [where ds = "[near_box, far_box, unit_box]" and t = NMS_THRESHOLD]
    by blast
  then show ?thesis unfolding a using a by simp
qed

text \<open>
  C4 as stated fails twice. Two boxes of no extent at one point both survive, and their
  overlap is \<^verbatim>\<open>0.0f / 0.0f\<close>, which is not at most the threshold. And of 17 boxes of one
  confidence that are apart from each other all survive, in the order that
  \<^verbatim>\<open>std::sort\<close> leaves them in; a second application sorts them again and returns them in
  another order.
\<close>

theorem apply_nms_survivors_counterexample:
  "apply_nms std_sort [point_box, point_box2] NMS_THRESHOLD = [point_box, point_box2]
   \<and> compute_iou point_box point_box2 = NaN
   \<and> \<not> float_le (compute_iou point_box point_box2) NMS_THRESHOLD
   \<and> apply_nms std_sort spread_boxes NMS_THRESHOLD
     = map square_at [16, 32, 30, 28, 26, 24, 22, 20, 18, 0, 14, 12, 10, 8, 6, 4, 2]
   \<and> apply_nms std_sort (apply_nms std_sort spread_boxes NMS_THRESHOLD) NMS_THRESHOLD
     = map square_at [18, 2, 4, 6, 8, 10, 12, 14, 0, 16, 20, 22, 24, 26, 28, 30, 32]
   \<and> apply_nms std_sort (apply_nms std_sort spread_boxes NMS_THRESHOLD) NMS_THRESHOLD
     \<noteq> apply_nms std_sort spread_boxes NMS_THRESHOLD"
proof -
  have s: "std_sort [point_box, point_box2] = [point_box, point_box2]"
    by (simp add: std_sort_small) (simp add: stable_sort_desc_def example_boxes)
  have n: "compute_iou point_box point_box2 = NaN"
    by (simp add: example_boxes iou_eval f32_small)
  have a: "apply_nms std_sort [point_box, point_box2] NMS_THRESHOLD = [point_box, point_box2]"
    unfolding apply_nms_greedy s by (simp add: overlaps_above_def n)
  have b: "\<not> float_le (compute_iou point_box point_box2) NMS_THRESHOLD"
    unfolding n by simp
  have c: "apply_nms std_sort spread_boxes NMS_THRESHOLD
           = map square_at [16, 32, 30, 28, 26, 24, 22, 20, 18, 0, 14, 12, 10, 8, 6, 4, 2]"
    unfolding apply_nms_greedy std_sort_spread_boxes by (rule greedy_nms_spread_boxes)
  have d': "apply_nms std_sort
              (map square_at [16, 32, 30, 28, 26, 24, 22, 20, 18, 0, 14, 12, 10, 8, 6, 4, 2])
              NMS_THRESHOLD
            = map square_at [18, 2, 4, 6, 8, 10, 12, 14, 0, 16, 20, 22, 24, 26, 28, 30, 32]"
    unfolding apply_nms_greedy std_sort_spread_boxes_again by (rule greedy_nms_spread_boxes)
  have d: "apply_nms std_sort (apply_nms std_sort spread_boxes NMS_THRESHOLD) NMS_THRESHOLD
           = map square_at [18, 2, 4, 6, 8, 10, 12, 14, 0, 16, 20, 22, 24, 26, 28, 30, 32]"
    unfolding c by (rule d')
  have e: "apply_nms std_sort (apply_nms std_sort spread_boxes NMS_THRESHOLD) NMS_THRESHOLD
           \<noteq> apply_nms std_sort spread_boxes NMS_THRESHOLD"
    unfolding c d' by (simp add: square_at_def)
  show ?thesis using a n b c d e by blast
qed

text \<open>
  C3, amended. For every list of detections, \<^verbatim>\<open>apply_nms\<close> is the greedy suppression over
  the list that \<^verbatim>\<open>std::sort\<close> returns, which is a permutation of the input in descending
  order of confidence. So the survivors are in descending order of confidence, and every
  input detection survives or overlaps above the threshold with a survivor of at least
  its confidence. The result is a function of the input list. Detections of equal
  confidence are in the order that \<^verbatim>\<open>std::sort\<close> leaves them in: for a list of at most 16
  detections it is the stable order, in which they keep their original relative order;
  for a longer list it need not be.
\<close>

theorem apply_nms_order:
  "apply_nms std_sort ds t = greedy_nms t (std_sort ds)
   \<and> mset (std_sort ds) = mset ds
   \<and> sorted_wrt (\<lambda>a b. det_confidence a \<ge> det_confidence b) (std_sort ds)
   \<and> sorted_wrt (\<lambda>a b. det_confidence a \<ge> det_confidence b) (apply_nms std_sort ds t)
   \<and> list_all (\<lambda>e. e \<in> set (apply_nms std_sort ds t)
                    \<or> list_ex (\<lambda>k. det_confidence k \<ge> det_confidence e
                                    \<and> float_gt (compute_iou k e) t)
                         (apply_nms std_sort ds t)) ds
   \<and> (length ds \<le> 16 \<longrightarrow> std_sort ds = stable_sort_desc ds)
   \<and> filter (\<lambda>d. det_confidence d = c) (stable_sort_desc ds)
       = filter (\<lambda>d. det_confidence d = c) ds"
proof -
  let ?ge = "\<lambda>a b. det_confidence a \<ge> det_confidence b"
  have c2: "mset (std_sort ds) = mset ds" by (rule std_sort_mset)
  have c3: "sorted_wrt ?ge (std_sort ds)"
    using std_sort_sorted [of ds] by (simp add: conf_greater_def not_less)
  have c4: "sorted_wrt ?ge (apply_nms std_sort ds t)"
    unfolding apply_nms_greedy using c3 by (rule greedy_nms_sorted_wrt)
  have "e \<in> set (apply_nms std_sort ds t)
        \<or> (\<exists>k\<in>set (apply_nms std_sort ds t). ?ge k e \<and> float_gt (compute_iou k e) t)"
    if "e \<in> set ds" for e
  proof -
    have "e \<in> set (std_sort ds)" using that c2 by (metis mset_eq_setD)
    from greedy_nms_dominated [OF c3 this, of t] show ?thesis
      by (simp add: apply_nms_greedy overlaps_above_def)
  qed
  then have c5: "list_all (\<lambda>e. e \<in> set (apply_nms std_sort ds t)
                          \<or> list_ex (\<lambda>k. ?ge k e \<and> float_gt (compute_iou k e) t)
                               (apply_nms std_sort ds t)) ds"
    by (simp add: list_all_iff list_ex_iff)
  have c6: "length ds \<le> 16 \<longrightarrow> std_sort ds = stable_sort_desc ds"
    using std_sort_small by blast
  have c7: "filter (\<lambda>d. det_confidence d = c) (stable_sort_desc ds)
             = filter (\<lambda>d. det_confidence d = c) ds"
    using sort_key_stable [of "\<lambda>d. - det_confidence d" "- c" ds]
    by (simp add: stable_sort_desc_def)
  show ?thesis using apply_nms_greedy [of std_sort ds t] c2 c3 c4 c5 c6 c7 by blast
qed

theorem apply_nms_order_witness:
  "std_sort [near_box, unit_box, far_box] = [unit_box, far_box, near_box]
   \<and> apply_nms std_sort [near_box, unit_box, far_box] NMS_THRESHOLD = [unit_box, far_box]"
proof -
  have l: "length [near_box, unit_box, far_box] \<le> 16" by simp
  have s: "stable_sort_desc [near_box, unit_box, far_box] = [unit_box, far_box, near_box]"
    by (simp add: stable_sort_desc_def example_boxes)
  have g: "greedy_nms NMS_THRESHOLD [unit_box, far_box, near_box] = [unit_box, far_box]"
    by (simp add: example_boxes overlap_eval)
  have t: "apply_nms std_sort [near_box, unit_box, far_box] NMS_THRESHOLD
           = greedy_nms NMS_THRESHOLD (std_sort [near_box, unit_box, far_box])"
    and u: "std_sort [near_box, unit_box, far_box] = stable_sort_desc [near_box, unit_box, far_box]"
    using apply_nms_order [where ds = "[near_box, unit_box, far_box]" and t = NMS_THRESHOLD] l
    by blast+
  show ?thesis unfolding t u s g by simp
qed

text \<open>
  C3 as stated fails: the tie-break of \<^verbatim>\<open>std::sort\<close> is not stable. Of 17 detections
  of one confidence, the ninth a quarter right of the first and the others apart,
  \<^verbatim>\<open>std::sort\<close> puts the ninth first. So the ninth survives and suppresses the first,
  where the stable order keeps the first and suppresses the ninth.
\<close>

theorem unstable_tie_break_counterexample:
  "map det_confidence tie_boxes = replicate 17 0.75
   \<and> std_sort tie_boxes
     = map square_at [0.25, 32, 30, 28, 26, 24, 22, 20, 18, 0, 14, 12, 10, 8, 6, 4, 2]
   \<and> stable_sort_desc tie_boxes = tie_boxes
   \<and> std_sort tie_boxes \<noteq> stable_sort_desc tie_boxes
   \<and> apply_nms std_sort tie_boxes NMS_THRESHOLD
     = map square_at [0.25, 32, 30, 28, 26, 24, 22, 20, 18, 14, 12, 10, 8, 6, 4, 2]
   \<and> apply_nms stable_sort_desc tie_boxes NMS_THRESHOLD
     = map square_at [0, 2, 4, 6, 8, 10, 12, 14, 18, 20, 22, 24, 26, 28, 30, 32]"
proof -
  have a: "map det_confidence tie_boxes = replicate 17 0.75"
    by (simp add: tie_boxes_def square_at_def eval_nat_numeral)
  have b: "stable_sort_desc tie_boxes = tie_boxes"
    by (simp add: stable_sort_desc_def tie_boxes_def square_at_def)
  have c: "std_sort tie_boxes \<noteq> stable_sort_desc tie_boxes"
    unfolding b std_sort_tie_boxes by (simp add: tie_boxes_def square_at_def)
  have d: "apply_nms std_sort tie_boxes NMS_THRESHOLD
           = map square_at [0.25, 32, 30, 28, 26, 24, 22, 20, 18, 14, 12, 10, 8, 6, 4, 2]"
    unfolding apply_nms_greedy std_sort_tie_boxes by (rule greedy_nms_tie_boxes)
  have e: "apply_nms stable_sort_desc tie_boxes NMS_THRESHOLD
           = map square_at [0, 2, 4, 6, 8, 10, 12, 14, 18, 20, 22, 24, 26, 28, 30, 32]"
    unfolding apply_nms_greedy b by (rule greedy_nms_tie_boxes)
  show ?thesis using a b c d e std_sort_tie_boxes by blast
qed


subsection \<open>Crop regions\<close>

lemma crop_plates_single:
  "crop_plates to_int img [det] =
     (if clamped_width to_int img det \<le> 0 \<or> clamped_height to_int img det \<le> 0 then []
      else [\<lparr>crop_bbox = \<lparr>bbox_x = real_of_int (clamped_x to_int img det),
                           bbox_y = real_of_int (clamped_y to_int img det),
                           bbox_width = real_of_int (clamped_width to_int img det),
                           bbox_height = real_of_int (clamped_height to_int img det)\<rparr>,
              target_width = OCR_WIDTH, target_height = OCR_HEIGHT, crop_detection = det\<rparr>])"
  by (simp add: clamped_x_def clamped_y_def clamped_width_def clamped_height_def Let_def)

lemma crop_plates_Cons:
  "crop_plates to_int img (det # detections)
   = crop_plates to_int img [det] @ crop_plates to_int img detections"
  by (simp add: Let_def)

declare crop_plates.simps(2) [simp del]

lemma crop_plates_concat:
  "crop_plates to_int img detections
   = concat (map (\<lambda>det. crop_plates to_int img [det]) detections)"
proof (induction detections)
  case Nil
  show ?case by simp
next
  case (Cons det detections)
  show ?case
    unfolding crop_plates_Cons [of _ _ det detections] using Cons by simp
qed

lemma clamped_in_frame:
  assumes "1 \<le> img_width img" "1 \<le> img_height img"
  shows "0 \<le> clamped_x to_int img det" "clamped_x to_int img det \<le> img_width img - 1"
    "0 \<le> clamped_y to_int img det" "clamped_y to_int img det \<le> img_height img - 1"
    "clamped_width to_int img det \<le> img_width img - clamped_x to_int img det"
    "clamped_height to_int img det \<le> img_height img - clamped_y to_int img det"
  using assms by (simp_all add: clamped_x_def clamped_y_def clamped_width_def clamped_height_def)

lemma crop_single_in_frame:
  assumes "1 \<le> img_width img" "1 \<le> img_height img"
  shows "list_all (\<lambda>c. crop_detection c = det \<and> region_in_frame img (crop_bbox c)
                       \<and> target_width c = 200 \<and> target_height c = 64)
           (crop_plates to_int img [det])"
proof -
  note b = clamped_in_frame [OF assms, of to_int det]
  have "real_of_int (clamped_x to_int img det) \<le> real_of_int (img_width img) - 1"
    using b(2) by linarith
  moreover have "real_of_int (clamped_y to_int img det) \<le> real_of_int (img_height img) - 1"
    using b(4) by linarith
  moreover have "real_of_int (clamped_width to_int img det)
                 \<le> real_of_int (img_width img) - real_of_int (clamped_x to_int img det)"
    using b(5) by linarith
  moreover have "real_of_int (clamped_height to_int img det)
                 \<le> real_of_int (img_height img) - real_of_int (clamped_y to_int img det)"
    using b(6) by linarith
  ultimately show ?thesis
    using b(1,3)
    by (simp add: crop_plates_single region_in_frame_def OCR_WIDTH_def OCR_HEIGHT_def not_le)
qed

text \<open>
  C6. For every detection, also one whose box is partly or wholly outside \<open>[0, 1]\<close>,
  every frame of \<open>W \<times> H\<close> pixels with \<open>W, H \<ge> 1\<close> and every result of the conversions to
  \<^verbatim>\<open>int\<close>: \<^verbatim>\<open>crop_plates\<close> gives no region or one region for the detection; a region it
  gives refers to the detection and has \<open>0 \<le> x \<le> W - 1\<close>, \<open>0 \<le> y \<le> H - 1\<close>,
  \<open>0 < w \<le> W - x\<close> and \<open>0 < h \<le> H - y\<close>; it gives no region exactly when the clamped
  width or the clamped height is at most 0. For a list of detections the regions are
  those of the single detections, in order.
\<close>

theorem crop_plates_in_frame:
  assumes "1 \<le> img_width img" and "1 \<le> img_height img"
  shows "length (crop_plates to_int img [det]) \<le> 1
         \<and> list_all (\<lambda>c. crop_detection c = det \<and> region_in_frame img (crop_bbox c))
              (crop_plates to_int img [det])
         \<and> (crop_plates to_int img [det] = []
              \<longleftrightarrow> clamped_width to_int img det \<le> 0 \<or> clamped_height to_int img det \<le> 0)
         \<and> crop_plates to_int img detections
             = concat (map (\<lambda>d. crop_plates to_int img [d]) detections)
         \<and> list_all (\<lambda>c. region_in_frame img (crop_bbox c)) (crop_plates to_int img detections)"
proof -
  have one: "list_all (\<lambda>c. region_in_frame img (crop_bbox c)) (crop_plates to_int img [d])" for d
    using crop_single_in_frame [OF assms, of d to_int] by (simp add: list_all_iff)
  have "list_all (\<lambda>c. region_in_frame img (crop_bbox c))
          (concat (map (\<lambda>d. crop_plates to_int img [d]) detections))"
    using one by (induction detections) simp_all
  then have all: "list_all (\<lambda>c. region_in_frame img (crop_bbox c))
                    (crop_plates to_int img detections)"
    using crop_plates_concat [of to_int img detections] by simp
  have "list_all (\<lambda>c. crop_detection c = det \<and> region_in_frame img (crop_bbox c))
              (crop_plates to_int img [det])"
    using crop_single_in_frame [OF assms, of det to_int] by (simp add: list_all_iff)
  then show ?thesis
    using all crop_plates_concat [of to_int img detections]
    by (simp add: crop_plates_single)
qed

theorem crop_plates_in_frame_witness:
  "crop_plates static_cast_int frame_800_400 [plate_at 0.4 0.45 0.2 0.1]
   = [\<lparr>crop_bbox = \<lparr>bbox_x = 320, bbox_y = 180, bbox_width = 160, bbox_height = 40\<rparr>,
       target_width = 200, target_height = 64, crop_detection = plate_at 0.4 0.45 0.2 0.1\<rparr>]
   \<and> crop_plates static_cast_int frame_800_400 [plate_at 0.9 (- 0.5) 0.3 0.75]
   = [\<lparr>crop_bbox = \<lparr>bbox_x = 720, bbox_y = 0, bbox_width = 80, bbox_height = 300\<rparr>,
       target_width = 200, target_height = 64, crop_detection = plate_at 0.9 (- 0.5) 0.3 0.75\<rparr>]
   \<and> crop_plates static_cast_int frame_800_400 [plate_at 1.5 0.2 (- 0.1) 0.1] = []"
proof -
  have w: "1 \<le> img_width frame_800_400" and h: "1 \<le> img_height frame_800_400"
    by (simp_all add: frame_800_400_def)
  have a: "crop_plates static_cast_int frame_800_400 [plate_at 0.4 0.45 0.2 0.1]
   = [\<lparr>crop_bbox = \<lparr>bbox_x = 320, bbox_y = 180, bbox_width = 160, bbox_height = 40\<rparr>,
       target_width = 200, target_height = 64, crop_detection = plate_at 0.4 0.45 0.2 0.1\<rparr>]"
    by (simp add: crop_plates.simps Let_def static_cast_int_def frame_800_400_def plate_at_def
        OCR_WIDTH_def OCR_HEIGHT_def)
  have b: "crop_plates static_cast_int frame_800_400 [plate_at 0.9 (- 0.5) 0.3 0.75]
   = [\<lparr>crop_bbox = \<lparr>bbox_x = 720, bbox_y = 0, bbox_width = 80, bbox_height = 300\<rparr>,
       target_width = 200, target_height = 64, crop_detection = plate_at 0.9 (- 0.5) 0.3 0.75\<rparr>]"
    by (simp add: crop_plates.simps Let_def static_cast_int_def frame_800_400_def plate_at_def
        OCR_WIDTH_def OCR_HEIGHT_def)
  have c: "clamped_width static_cast_int frame_800_400 (plate_at 1.5 0.2 (- 0.1) 0.1) \<le> 0"
    by (simp add: clamped_width_def clamped_x_def static_cast_int_def frame_800_400_def
        plate_at_def)
  have "crop_plates static_cast_int frame_800_400 [plate_at 1.5 0.2 (- 0.1) 0.1] = []"
    using crop_plates_in_frame [OF w h, of static_cast_int "plate_at 1.5 0.2 (- 0.1) 0.1" "[]"] c
    by simp
  then show ?thesis using a b by simp
qed


end
